theory Spec2Isabelle
  imports Complex_Main "HOL-Library.Word"
begin

unbundle bit_operations_syntax

section \<open>Data model\<close>

text \<open>
  The kernels of \<^verbatim>\<open>binary.h\<close> and \<^verbatim>\<open>x86_avx2_i8.h\<close> take two pointers and a count and
  return one \<^verbatim>\<open>simsimd_f32_t\<close>.

  Modelled from the spec: the scalar types, whose declarations are in \<^verbatim>\<open>types.h\<close>, a file
  that is not among the sources. \<^verbatim>\<open>simsimd_b8_t\<close> is an unsigned byte (eight packed bits),
  \<^verbatim>\<open>simsimd_i8_t\<close> a signed byte (read with \<open>sint\<close> or \<open>scast\<close>), \<^verbatim>\<open>simsimd_i32_t\<close> a signed
  32-bit integer like \<^verbatim>\<open>int\<close>, and \<^verbatim>\<open>simsimd_size_t\<close> an unsigned 64-bit count. All of them
  wrap around.
\<close>

type_synonym simsimd_b8_t = "8 word"
type_synonym simsimd_i8_t = "8 word"
type_synonym simsimd_i32_t = "32 word"
type_synonym simsimd_size_t = "64 word"

text \<open>
  A pointer is the list of the elements readable from it onwards; \<^verbatim>\<open>p + k\<close> is \<open>drop k p\<close>.
  Reading past the end is undefined in C: the model makes it the value \<open>None\<close>, which every
  kernel propagates.
\<close>

definition rd :: "'a list \<Rightarrow> nat \<Rightarrow> 'a option" where
  "rd p i = (if i < length p then Some (p ! i) else None)"

text \<open>
  The result type \<^verbatim>\<open>simsimd_f32_t\<close> and its arithmetic are kept abstract: a kernel is
  parametrised by the conversion from an integer value to a float and by the float
  operations its return statement uses. Two kernels that apply the same operations to the
  same integers return the same float.
\<close>

record 'f f32_arith =
  f32_of_int :: "int \<Rightarrow> 'f"
  f32_sub :: "'f \<Rightarrow> 'f \<Rightarrow> 'f"
  f32_mul :: "'f \<Rightarrow> 'f \<Rightarrow> 'f"
  f32_div :: "'f \<Rightarrow> 'f \<Rightarrow> 'f"

text \<open>Arithmetic without rounding, for evaluating a kernel at a concrete input.\<close>

definition exact_arith :: "rat f32_arith" where
  "exact_arith = \<lparr>f32_of_int = of_int, f32_sub = (-), f32_mul = (*), f32_div = (/)\<rparr>"

section \<open>Population count of a byte\<close>

definition lookup_table :: "8 word list" where
  "lookup_table =
    [0, 1, 1, 2, 1, 2, 2, 3, 1, 2, 2, 3, 2, 3, 3, 4, 1, 2, 2, 3, 2, 3, 3, 4, 2, 3, 3, 4, 3, 4, 4, 5,
     1, 2, 2, 3, 2, 3, 3, 4, 2, 3, 3, 4, 3, 4, 4, 5, 2, 3, 3, 4, 3, 4, 4, 5, 3, 4, 4, 5, 4, 5, 5, 6,
     1, 2, 2, 3, 2, 3, 3, 4, 2, 3, 3, 4, 3, 4, 4, 5, 2, 3, 3, 4, 3, 4, 4, 5, 3, 4, 4, 5, 4, 5, 5, 6,
     2, 3, 3, 4, 3, 4, 4, 5, 3, 4, 4, 5, 4, 5, 5, 6, 3, 4, 4, 5, 4, 5, 5, 6, 4, 5, 5, 6, 5, 6, 6, 7,
     1, 2, 2, 3, 2, 3, 3, 4, 2, 3, 3, 4, 3, 4, 4, 5, 2, 3, 3, 4, 3, 4, 4, 5, 3, 4, 4, 5, 4, 5, 5, 6,
     2, 3, 3, 4, 3, 4, 4, 5, 3, 4, 4, 5, 4, 5, 5, 6, 3, 4, 4, 5, 4, 5, 5, 6, 4, 5, 5, 6, 5, 6, 6, 7,
     2, 3, 3, 4, 3, 4, 4, 5, 3, 4, 4, 5, 4, 5, 5, 6, 3, 4, 4, 5, 4, 5, 5, 6, 4, 5, 5, 6, 5, 6, 6, 7,
     3, 4, 4, 5, 4, 5, 5, 6, 4, 5, 5, 6, 5, 6, 6, 7, 4, 5, 5, 6, 5, 6, 6, 7, 5, 6, 6, 7, 6, 7, 7, 8]"

text \<open>
  \<^verbatim>\<open>return lookup_table[x]\<close>: the table has 256 entries and \<open>x\<close> is a byte, so the index
  is always in range (\<open>lookup_table_length\<close> below).
\<close>

definition simsimd_popcount_b8 :: "simsimd_b8_t \<Rightarrow> 8 word" where
  "simsimd_popcount_b8 x = lookup_table ! unat x"

text \<open>The number of set bits of a word, counted bit by bit.\<close>

definition set_bits :: "'a::len word \<Rightarrow> nat" where
  "set_bits w = length (filter (bit w) [0..<LENGTH('a)])"

section \<open>Scalar kernels\<close>

text \<open>
  \<^verbatim>\<open>for (; i != n_words; ++i) differences += simsimd_popcount_b8(a[i] ^ b[i]);\<close>
  The loop of the serial kernel (entered with \<open>i = 0\<close>) and, word for word, the tail loop
  of the NEON kernel. The \<^verbatim>\<open>unsigned char\<close> count is promoted to \<^verbatim>\<open>int\<close> and added.
\<close>

function b8_hamming_loop ::
  "simsimd_b8_t list \<Rightarrow> simsimd_b8_t list \<Rightarrow> simsimd_size_t \<Rightarrow> simsimd_size_t \<Rightarrow>
   simsimd_i32_t \<Rightarrow> simsimd_i32_t option" where
  "b8_hamming_loop a b n_words i differences =
     (if i \<noteq> n_words then
        (case rd a (unat i) of None \<Rightarrow> None | Some x \<Rightarrow>
         (case rd b (unat i) of None \<Rightarrow> None | Some y \<Rightarrow>
            b8_hamming_loop a b n_words (i + 1)
              (differences + ucast (simsimd_popcount_b8 (x XOR y)))))
      else Some differences)"
  by pat_completeness auto
termination
proof (relation "measure (\<lambda>(a, b, n_words, i, differences). unat (n_words - i))")
  show "wf (measure (\<lambda>(a, b, n_words, i, differences). unat (n_words - i)))"
    by simp
next
  fix n_words i :: simsimd_size_t
  fix a b :: "simsimd_b8_t list" and differences :: simsimd_i32_t and x y
  assume "i \<noteq> n_words"
  then have "n_words - i \<noteq> 0" by simp
  then have "unat (n_words - i - 1) < unat (n_words - i)"
    by (simp add: unat_minus_one unat_gt_0)
  also have "n_words - i - 1 = n_words - (i + 1)" by simp
  finally show "((a, b, n_words, i + 1, differences + ucast (simsimd_popcount_b8 (x XOR y))),
         (a, b, n_words, i, differences))
        \<in> measure (\<lambda>(a, b, n_words, i, differences). unat (n_words - i))"
    by (simp only: in_measure prod.case)
qed

declare b8_hamming_loop.simps [simp del]

definition simsimd_serial_b8_hamming ::
  "'f f32_arith \<Rightarrow> simsimd_b8_t list \<Rightarrow> simsimd_b8_t list \<Rightarrow> simsimd_size_t \<Rightarrow> 'f option" where
  "simsimd_serial_b8_hamming F a b n_words =
     (case b8_hamming_loop a b n_words 0 0 of None \<Rightarrow> None
      | Some differences \<Rightarrow> Some (f32_of_int F (sint differences)))"

text \<open>
  \<^verbatim>\<open>for (; i != n_words; ++i)
      intersection += simsimd_popcount_b8(a[i] & b[i]), union_ += simsimd_popcount_b8(a[i] | b[i]);\<close>
  The loop of the serial Jaccard kernel and the tail loop of the NEON one.
\<close>

function b8_jaccard_loop ::
  "simsimd_b8_t list \<Rightarrow> simsimd_b8_t list \<Rightarrow> simsimd_size_t \<Rightarrow> simsimd_size_t \<Rightarrow>
   simsimd_i32_t \<Rightarrow> simsimd_i32_t \<Rightarrow> (simsimd_i32_t \<times> simsimd_i32_t) option" where
  "b8_jaccard_loop a b n_words i intersection union' =
     (if i \<noteq> n_words then
        (case rd a (unat i) of None \<Rightarrow> None | Some x \<Rightarrow>
         (case rd b (unat i) of None \<Rightarrow> None | Some y \<Rightarrow>
            b8_jaccard_loop a b n_words (i + 1)
              (intersection + ucast (simsimd_popcount_b8 (x AND y)))
              (union' + ucast (simsimd_popcount_b8 (x OR y)))))
      else Some (intersection, union'))"
  by pat_completeness auto
termination
proof (relation "measure (\<lambda>(a, b, n_words, i, intersection, union'). unat (n_words - i))")
  show "wf (measure (\<lambda>(a, b, n_words, i, intersection, union'). unat (n_words - i)))"
    by simp
next
  fix n_words i :: simsimd_size_t
  fix a b :: "simsimd_b8_t list" and intersection union' :: simsimd_i32_t and x y
  assume "i \<noteq> n_words"
  then have "n_words - i \<noteq> 0" by simp
  then have "unat (n_words - i - 1) < unat (n_words - i)"
    by (simp add: unat_minus_one unat_gt_0)
  also have "n_words - i - 1 = n_words - (i + 1)" by simp
  finally show "((a, b, n_words, i + 1, intersection + ucast (simsimd_popcount_b8 (x AND y)),
          union' + ucast (simsimd_popcount_b8 (x OR y))),
         (a, b, n_words, i, intersection, union'))
        \<in> measure (\<lambda>(a, b, n_words, i, intersection, union'). unat (n_words - i))"
    by (simp only: in_measure prod.case)
qed

declare b8_jaccard_loop.simps [simp del]

text \<open>
  \<^verbatim>\<open>return (union_ != 0) ? 1 - (simsimd_f32_t)intersection / (simsimd_f32_t)union_ : 0;\<close>
  The return statement of every Jaccard kernel, on the integer values of the two counters
  (read with \<open>sint\<close> where the counter is a \<^verbatim>\<open>simsimd_i32_t\<close>, with \<open>uint\<close> where it is a
  \<^verbatim>\<open>simsimd_size_t\<close>). The literals \<^verbatim>\<open>1\<close> and \<^verbatim>\<open>0\<close> are converted to float.
\<close>

definition jaccard_return :: "'f f32_arith \<Rightarrow> int \<Rightarrow> int \<Rightarrow> 'f" where
  "jaccard_return F intersection union' =
     (if union' \<noteq> 0
      then f32_sub F (f32_of_int F 1) (f32_div F (f32_of_int F intersection) (f32_of_int F union'))
      else f32_of_int F 0)"

definition simsimd_serial_b8_jaccard ::
  "'f f32_arith \<Rightarrow> simsimd_b8_t list \<Rightarrow> simsimd_b8_t list \<Rightarrow> simsimd_size_t \<Rightarrow> 'f option" where
  "simsimd_serial_b8_jaccard F a b n_words =
     (case b8_jaccard_loop a b n_words 0 0 0 of None \<Rightarrow> None
      | Some (intersection, union') \<Rightarrow> Some (jaccard_return F (sint intersection) (sint union')))"

section \<open>NEON kernels\<close>

text \<open>
  \<^verbatim>\<open>uint8x16_t\<close> is a vector of 16 unsigned bytes: a list of its lanes. \<^verbatim>\<open>vld1q_u8\<close> reads 16
  bytes, \<^verbatim>\<open>veorq_u8\<close>, \<^verbatim>\<open>vandq_u8\<close> and \<^verbatim>\<open>vorrq_u8\<close> work lane by lane, \<^verbatim>\<open>vcntq_u8\<close> counts
  the set bits of each lane, and \<^verbatim>\<open>vaddvq_u8\<close> adds the lanes into one \<^verbatim>\<open>uint8_t\<close>.
\<close>

type_synonym uint8x16_t = "8 word list"

definition vld1q_u8 :: "8 word list \<Rightarrow> uint8x16_t option" where
  "vld1q_u8 p = (if 16 \<le> length p then Some (take 16 p) else None)"

definition veorq_u8 :: "uint8x16_t \<Rightarrow> uint8x16_t \<Rightarrow> uint8x16_t" where
  "veorq_u8 x y = map2 (XOR) x y"

definition vandq_u8 :: "uint8x16_t \<Rightarrow> uint8x16_t \<Rightarrow> uint8x16_t" where
  "vandq_u8 x y = map2 (AND) x y"

definition vorrq_u8 :: "uint8x16_t \<Rightarrow> uint8x16_t \<Rightarrow> uint8x16_t" where
  "vorrq_u8 x y = map2 (OR) x y"

definition vcntq_u8 :: "uint8x16_t \<Rightarrow> uint8x16_t" where
  "vcntq_u8 x = map (\<lambda>l. word_of_nat (set_bits l)) x"

definition vaddvq_u8 :: "uint8x16_t \<Rightarrow> 8 word" where
  "vaddvq_u8 x = sum_list x"

text \<open>
  \<^verbatim>\<open>for (; i + 16 <= n_words; i += 16)\<close>, returning \<open>i\<close> and the counter for the tail loop.
  \<open>i + 16\<close> wraps around in \<^verbatim>\<open>simsimd_size_t\<close>, so the loop is not known to end for every
  \<open>n_words\<close>: not returning is the value \<open>None\<close>.
\<close>

partial_function (option) neon_b8_hamming_loop ::
  "simsimd_b8_t list \<Rightarrow> simsimd_b8_t list \<Rightarrow> simsimd_size_t \<Rightarrow> simsimd_size_t \<Rightarrow>
   simsimd_i32_t \<Rightarrow> (simsimd_size_t \<times> simsimd_i32_t) option" where
  "neon_b8_hamming_loop a b n_words i differences =
     (if i + 16 \<le> n_words then
        (case vld1q_u8 (drop (unat i) a) of None \<Rightarrow> None | Some a_first \<Rightarrow>
         (case vld1q_u8 (drop (unat i) b) of None \<Rightarrow> None | Some b_first \<Rightarrow>
            neon_b8_hamming_loop a b n_words (i + 16)
              (differences + ucast (vaddvq_u8 (vcntq_u8 (veorq_u8 a_first b_first))))))
      else Some (i, differences))"

declare neon_b8_hamming_loop.simps [code]

definition simsimd_neon_b8_hamming ::
  "'f f32_arith \<Rightarrow> simsimd_b8_t list \<Rightarrow> simsimd_b8_t list \<Rightarrow> simsimd_size_t \<Rightarrow> 'f option" where
  "simsimd_neon_b8_hamming F a b n_words =
     (case neon_b8_hamming_loop a b n_words 0 0 of None \<Rightarrow> None
      | Some (i, differences) \<Rightarrow>
          (case b8_hamming_loop a b n_words i differences of None \<Rightarrow> None
           | Some differences' \<Rightarrow> Some (f32_of_int F (sint differences'))))"

partial_function (option) neon_b8_jaccard_loop ::
  "simsimd_b8_t list \<Rightarrow> simsimd_b8_t list \<Rightarrow> simsimd_size_t \<Rightarrow> simsimd_size_t \<Rightarrow>
   simsimd_i32_t \<Rightarrow> simsimd_i32_t \<Rightarrow> (simsimd_size_t \<times> simsimd_i32_t \<times> simsimd_i32_t) option" where
  "neon_b8_jaccard_loop a b n_words i intersection union' =
     (if i + 16 \<le> n_words then
        (case vld1q_u8 (drop (unat i) a) of None \<Rightarrow> None | Some a_first \<Rightarrow>
         (case vld1q_u8 (drop (unat i) b) of None \<Rightarrow> None | Some b_first \<Rightarrow>
            neon_b8_jaccard_loop a b n_words (i + 16)
              (intersection + ucast (vaddvq_u8 (vcntq_u8 (vandq_u8 a_first b_first))))
              (union' + ucast (vaddvq_u8 (vcntq_u8 (vorrq_u8 a_first b_first))))))
      else Some (i, intersection, union'))"

declare neon_b8_jaccard_loop.simps [code]

definition simsimd_neon_b8_jaccard ::
  "'f f32_arith \<Rightarrow> simsimd_b8_t list \<Rightarrow> simsimd_b8_t list \<Rightarrow> simsimd_size_t \<Rightarrow> 'f option" where
  "simsimd_neon_b8_jaccard F a b n_words =
     (case neon_b8_jaccard_loop a b n_words 0 0 0 of None \<Rightarrow> None
      | Some (i, intersection, union') \<Rightarrow>
          (case b8_jaccard_loop a b n_words i intersection union' of None \<Rightarrow> None
           | Some (intersection2, union2) \<Rightarrow>
               Some (jaccard_return F (sint intersection2) (sint union2))))"

section \<open>SVE kernels\<close>

text \<open>
  \<^verbatim>\<open>svuint8_t\<close> is a vector of \<open>vl\<close> unsigned bytes and \<^verbatim>\<open>svbool_t\<close> a predicate of \<open>vl\<close>
  lanes, where \<open>vl\<close> is what \<^verbatim>\<open>svcntb()\<close> returns on the running hardware: a parameter of
  the kernels.

  \<^verbatim>\<open>svwhilelt_b8\<close> on two \<^verbatim>\<open>unsigned int\<close> is the instruction WHILELO: lane by lane it
  compares the first operand with the second, switches the lanes off from the first
  failed comparison on (the flag \<open>lst\<close>), and increments the first operand (which wraps around in 32 bits).
\<close>

type_synonym svuint8_t = "8 word list"
type_synonym svbool_t = "bool list"

fun whilelo :: "nat \<Rightarrow> 32 word \<Rightarrow> 32 word \<Rightarrow> bool \<Rightarrow> svbool_t" where
  "whilelo 0 operand1 operand2 lst = []"
| "whilelo (Suc e) operand1 operand2 lst =
     (let lst' = (lst \<and> operand1 < operand2)
      in lst' # whilelo e (operand1 + 1) operand2 lst')"

definition svwhilelt_b8 :: "nat \<Rightarrow> 32 word \<Rightarrow> 32 word \<Rightarrow> svbool_t" where
  "svwhilelt_b8 vl x y = whilelo vl x y True"

definition svptrue_b8 :: "nat \<Rightarrow> svbool_t" where
  "svptrue_b8 vl = replicate vl True"

text \<open>\<^verbatim>\<open>svld1_u8\<close> reads the active lanes only and sets the inactive ones to zero.\<close>

definition svld1_u8 :: "svbool_t \<Rightarrow> 8 word list \<Rightarrow> svuint8_t option" where
  "svld1_u8 pg p =
     those (map (\<lambda>(k, active). if active then rd p k else Some 0) (zip [0..<length pg] pg))"

text \<open>The \<^verbatim>\<open>_m\<close> operations keep the first operand in an inactive lane.\<close>

definition sveor_u8_m :: "svbool_t \<Rightarrow> svuint8_t \<Rightarrow> svuint8_t \<Rightarrow> svuint8_t" where
  "sveor_u8_m pg x y = map (\<lambda>(active, l, r). if active then l XOR r else l) (zip pg (zip x y))"

definition svand_u8_m :: "svbool_t \<Rightarrow> svuint8_t \<Rightarrow> svuint8_t \<Rightarrow> svuint8_t" where
  "svand_u8_m pg x y = map (\<lambda>(active, l, r). if active then l AND r else l) (zip pg (zip x y))"

definition svorr_u8_m :: "svbool_t \<Rightarrow> svuint8_t \<Rightarrow> svuint8_t \<Rightarrow> svuint8_t" where
  "svorr_u8_m pg x y = map (\<lambda>(active, l, r). if active then l OR r else l) (zip pg (zip x y))"

text \<open>
  \<^verbatim>\<open>svcnt_u8_x\<close> counts the set bits of each active lane; the \<^verbatim>\<open>_x\<close> form leaves an
  inactive lane unspecified (here: unchanged), and the kernels pass an all-true predicate.
  \<^verbatim>\<open>svaddv_u8\<close> adds the active lanes into a \<^verbatim>\<open>uint64_t\<close>.
\<close>

definition svcnt_u8_x :: "svbool_t \<Rightarrow> svuint8_t \<Rightarrow> svuint8_t" where
  "svcnt_u8_x pg x = map (\<lambda>(active, l). if active then word_of_nat (set_bits l) else l) (zip pg x)"

definition svaddv_u8 :: "svbool_t \<Rightarrow> svuint8_t \<Rightarrow> 64 word" where
  "svaddv_u8 pg x = sum_list (map (\<lambda>(active, l). if active then ucast l else 0) (zip pg x))"

text \<open>
  The body of the \<^verbatim>\<open>do ... while (i < n_words)\<close> loop. \<^verbatim>\<open>differences += svaddv_u8(...)\<close>
  adds a \<^verbatim>\<open>uint64_t\<close> to an \<^verbatim>\<open>int\<close>: the counter is sign-extended to 64 bits, the sum
  is truncated back to 32 bits. \<open>i + vl\<close> wraps around in \<^verbatim>\<open>simsimd_size_t\<close>, so the loop
  is not known to end for every input.
\<close>

partial_function (option) sve_b8_hamming_loop ::
  "nat \<Rightarrow> simsimd_b8_t list \<Rightarrow> simsimd_b8_t list \<Rightarrow> simsimd_size_t \<Rightarrow> simsimd_size_t \<Rightarrow>
   simsimd_i32_t \<Rightarrow> simsimd_i32_t option" where
  "sve_b8_hamming_loop vl a b n_words i differences =
     (let pg_vec = svwhilelt_b8 vl (ucast i) (ucast n_words) in
      case svld1_u8 pg_vec (drop (unat i) a) of None \<Rightarrow> None | Some a_vec \<Rightarrow>
      (case svld1_u8 pg_vec (drop (unat i) b) of None \<Rightarrow> None | Some b_vec \<Rightarrow>
       (let differences2 = ucast ((scast differences :: 64 word) +
              svaddv_u8 (svptrue_b8 vl)
                (svcnt_u8_x (svptrue_b8 vl) (sveor_u8_m (svptrue_b8 vl) a_vec b_vec)));
            i2 = i + word_of_nat vl
        in if i2 < n_words then sve_b8_hamming_loop vl a b n_words i2 differences2
           else Some differences2)))"

declare sve_b8_hamming_loop.simps [code]

definition simsimd_sve_b8_hamming ::
  "nat \<Rightarrow> 'f f32_arith \<Rightarrow> simsimd_b8_t list \<Rightarrow> simsimd_b8_t list \<Rightarrow> simsimd_size_t \<Rightarrow> 'f option" where
  "simsimd_sve_b8_hamming vl F a b n_words =
     (case sve_b8_hamming_loop vl a b n_words 0 0 of None \<Rightarrow> None
      | Some differences \<Rightarrow> Some (f32_of_int F (sint differences)))"

partial_function (option) sve_b8_jaccard_loop ::
  "nat \<Rightarrow> simsimd_b8_t list \<Rightarrow> simsimd_b8_t list \<Rightarrow> simsimd_size_t \<Rightarrow> simsimd_size_t \<Rightarrow>
   simsimd_i32_t \<Rightarrow> simsimd_i32_t \<Rightarrow> (simsimd_i32_t \<times> simsimd_i32_t) option" where
  "sve_b8_jaccard_loop vl a b n_words i intersection union' =
     (let pg_vec = svwhilelt_b8 vl (ucast i) (ucast n_words) in
      case svld1_u8 pg_vec (drop (unat i) a) of None \<Rightarrow> None | Some a_vec \<Rightarrow>
      (case svld1_u8 pg_vec (drop (unat i) b) of None \<Rightarrow> None | Some b_vec \<Rightarrow>
       (let intersection2 = ucast ((scast intersection :: 64 word) +
              svaddv_u8 (svptrue_b8 vl)
                (svcnt_u8_x (svptrue_b8 vl) (svand_u8_m (svptrue_b8 vl) a_vec b_vec)));
            union2 = ucast ((scast union' :: 64 word) +
              svaddv_u8 (svptrue_b8 vl)
                (svcnt_u8_x (svptrue_b8 vl) (svorr_u8_m (svptrue_b8 vl) a_vec b_vec)));
            i2 = i + word_of_nat vl
        in if i2 < n_words then sve_b8_jaccard_loop vl a b n_words i2 intersection2 union2
           else Some (intersection2, union2))))"

declare sve_b8_jaccard_loop.simps [code]

definition simsimd_sve_b8_jaccard ::
  "nat \<Rightarrow> 'f f32_arith \<Rightarrow> simsimd_b8_t list \<Rightarrow> simsimd_b8_t list \<Rightarrow> simsimd_size_t \<Rightarrow> 'f option" where
  "simsimd_sve_b8_jaccard vl F a b n_words =
     (case sve_b8_jaccard_loop vl a b n_words 0 0 0 of None \<Rightarrow> None
      | Some (intersection, union') \<Rightarrow> Some (jaccard_return F (sint intersection) (sint union')))"

section \<open>AVX-512 kernels\<close>

text \<open>
  An x86 vector register is a word of 512, 256 or 128 bits; an instruction reads it as
  lanes of its own width, lane 0 in the lowest bits. \<open>lanes n v\<close> are the first \<open>n\<close> lanes of
  \<open>v\<close> and \<open>pack ls\<close> is the register holding the lanes \<open>ls\<close>. Memory is little-endian, so a
  load packs the bytes read in order.
\<close>

definition lanes :: "nat \<Rightarrow> 'a::len word \<Rightarrow> 'b::len word list" where
  "lanes n v = map (\<lambda>k. ucast (drop_bit (k * LENGTH('b)) v)) [0..<n]"

definition pack :: "'b::len word list \<Rightarrow> 'a::len word" where
  "pack ls = horner_sum ucast (2 ^ LENGTH('b)) ls"

type_synonym m512i = "512 word"
type_synonym mmask64 = "64 word"

text \<open>
  \<^verbatim>\<open>_bzhi_u64(x, index)\<close> clears the bits of \<open>x\<close> from position \<open>index[7:0]\<close> upwards, and
  returns \<open>x\<close> when that position is beyond bit 63.
\<close>

definition bzhi_u64 :: "64 word \<Rightarrow> 32 word \<Rightarrow> 64 word" where
  "bzhi_u64 x index =
     (let n = unat (ucast index :: 8 word) in if n < 64 then take_bit n x else x)"

text \<open>
  \<^verbatim>\<open>_mm512_maskz_loadu_epi8\<close> reads the bytes whose mask bit is set and zeroes the others
  (a masked-off byte is not read); \<^verbatim>\<open>_mm512_loadu_epi8\<close> reads 64 bytes.
\<close>

definition mm512_maskz_loadu_epi8 :: "mmask64 \<Rightarrow> 8 word list \<Rightarrow> m512i option" where
  "mm512_maskz_loadu_epi8 k p =
     (case those (map (\<lambda>j. if bit k j then rd p j else Some 0) [0..<64]) of None \<Rightarrow> None
      | Some bytes \<Rightarrow> Some (pack bytes))"

definition mm512_loadu_epi8 :: "8 word list \<Rightarrow> m512i option" where
  "mm512_loadu_epi8 p = (if 64 \<le> length p then Some (pack (take 64 p)) else None)"

definition mm512_popcnt_epi64 :: "m512i \<Rightarrow> m512i" where
  "mm512_popcnt_epi64 x = pack (map (\<lambda>l :: 64 word. word_of_nat (set_bits l) :: 64 word) (lanes 8 x))"

definition mm512_add_epi64 :: "m512i \<Rightarrow> m512i \<Rightarrow> m512i" where
  "mm512_add_epi64 x y = pack (map2 (+) (lanes 8 x :: 64 word list) (lanes 8 y))"

definition mm512_reduce_add_epi64 :: "m512i \<Rightarrow> 64 word" where
  "mm512_reduce_add_epi64 x = sum_list (lanes 8 x)"

text \<open>
  The first statement of both AVX-512 cycles: below 64 words a masked load and
  \<^verbatim>\<open>n_words = 0\<close>, otherwise a full load and \<^verbatim>\<open>a += 64, b += 64, n_words -= 64\<close>. It gives
  the two vectors and the new \<open>a\<close>, \<open>b\<close> and \<open>n_words\<close>.
\<close>

definition avx512_b8_load ::
  "simsimd_b8_t list \<Rightarrow> simsimd_b8_t list \<Rightarrow> simsimd_size_t \<Rightarrow>
   (m512i \<times> m512i \<times> simsimd_b8_t list \<times> simsimd_b8_t list \<times> simsimd_size_t) option" where
  "avx512_b8_load a b n_words =
     (if n_words < 64 then
        (let mask = bzhi_u64 (- 1) (ucast n_words) in
         case mm512_maskz_loadu_epi8 mask a of None \<Rightarrow> None | Some a_vec \<Rightarrow>
         (case mm512_maskz_loadu_epi8 mask b of None \<Rightarrow> None | Some b_vec \<Rightarrow>
            Some (a_vec, b_vec, a, b, 0)))
      else
        (case mm512_loadu_epi8 a of None \<Rightarrow> None | Some a_vec \<Rightarrow>
         (case mm512_loadu_epi8 b of None \<Rightarrow> None | Some b_vec \<Rightarrow>
            Some (a_vec, b_vec, drop 64 a, drop 64 b, n_words - 64))))"

text \<open>
  The cycle from the label to the \<^verbatim>\<open>goto\<close>: load, \<^verbatim>\<open>_mm512_xor_si512\<close>, count the set
  bits of each 64-bit lane, add them to the lanes of \<open>differences_vec\<close>, and go round again
  while \<open>n_words\<close> is not zero.
\<close>

function avx512_b8_hamming_cycle ::
  "simsimd_b8_t list \<Rightarrow> simsimd_b8_t list \<Rightarrow> simsimd_size_t \<Rightarrow> m512i \<Rightarrow> m512i option" where
  "avx512_b8_hamming_cycle a b n_words differences_vec =
     (case avx512_b8_load a b n_words of None \<Rightarrow> None
      | Some (a_vec, b_vec, a2, b2, n_words2) \<Rightarrow>
          (let xor_vec = a_vec XOR b_vec;
               differences_vec2 = mm512_add_epi64 differences_vec (mm512_popcnt_epi64 xor_vec)
           in if n_words2 \<noteq> 0 then avx512_b8_hamming_cycle a2 b2 n_words2 differences_vec2
              else Some differences_vec2))"
  by pat_completeness auto
termination
proof (relation "measure (\<lambda>(a, b, n_words, differences_vec). unat n_words)")
  show "wf (measure (\<lambda>(a, b, n_words, differences_vec). unat n_words))"
    by simp
next
  fix a b :: "simsimd_b8_t list" and n_words n_words2 :: simsimd_size_t
  fix differences_vec differences_vec2 :: m512i
  fix x2 a_vec y b_vec ya a2 yb b2
  assume load: "avx512_b8_load a b n_words = Some x2" "(a_vec, y) = x2" "(b_vec, ya) = y"
    "(a2, yb) = ya" "(b2, n_words2) = yb"
    and more: "n_words2 \<noteq> 0"
  from load have "avx512_b8_load a b n_words = Some (a_vec, b_vec, a2, b2, n_words2)"
    by simp
  with more have "\<not> n_words < 64" and "n_words2 = n_words - 64"
    by (auto simp add: avx512_b8_load_def Let_def split: if_splits option.splits)
  then have "unat n_words2 < unat n_words"
    by (simp add: unat_sub word_le_nat_alt not_less)
  then show "((a2, b2, n_words2, differences_vec2), (a, b, n_words, differences_vec))
      \<in> measure (\<lambda>(a, b, n_words, differences_vec). unat n_words)"
    by simp
qed

declare avx512_b8_hamming_cycle.simps [simp del]

text \<open>
  \<^verbatim>\<open>simsimd_size_t differences = _mm512_reduce_add_epi64(differences_vec);
  return (simsimd_f32_t)differences;\<close> The counter is unsigned here.
\<close>

definition simsimd_avx512_b8_hamming ::
  "'f f32_arith \<Rightarrow> simsimd_b8_t list \<Rightarrow> simsimd_b8_t list \<Rightarrow> simsimd_size_t \<Rightarrow> 'f option" where
  "simsimd_avx512_b8_hamming F a b n_words =
     (case avx512_b8_hamming_cycle a b n_words 0 of None \<Rightarrow> None
      | Some differences_vec \<Rightarrow>
          Some (f32_of_int F (uint (mm512_reduce_add_epi64 differences_vec))))"

function avx512_b8_jaccard_cycle ::
  "simsimd_b8_t list \<Rightarrow> simsimd_b8_t list \<Rightarrow> simsimd_size_t \<Rightarrow> m512i \<Rightarrow> m512i \<Rightarrow>
   (m512i \<times> m512i) option" where
  "avx512_b8_jaccard_cycle a b n_words intersection_vec union_vec =
     (case avx512_b8_load a b n_words of None \<Rightarrow> None
      | Some (a_vec, b_vec, a2, b2, n_words2) \<Rightarrow>
          (let and_vec = a_vec AND b_vec;
               or_vec = a_vec OR b_vec;
               intersection_vec2 = mm512_add_epi64 intersection_vec (mm512_popcnt_epi64 and_vec);
               union_vec2 = mm512_add_epi64 union_vec (mm512_popcnt_epi64 or_vec)
           in if n_words2 \<noteq> 0
              then avx512_b8_jaccard_cycle a2 b2 n_words2 intersection_vec2 union_vec2
              else Some (intersection_vec2, union_vec2)))"
  by pat_completeness auto
termination
proof (relation "measure (\<lambda>(a, b, n_words, intersection_vec, union_vec). unat n_words)")
  show "wf (measure (\<lambda>(a, b, n_words, intersection_vec, union_vec). unat n_words))"
    by simp
next
  fix a b :: "simsimd_b8_t list" and n_words n_words2 :: simsimd_size_t
  fix intersection_vec union_vec intersection_vec2 union_vec2 :: m512i
  fix x2 a_vec y b_vec ya a2 yb b2
  assume load: "avx512_b8_load a b n_words = Some x2" "(a_vec, y) = x2" "(b_vec, ya) = y"
    "(a2, yb) = ya" "(b2, n_words2) = yb"
    and more: "n_words2 \<noteq> 0"
  from load have "avx512_b8_load a b n_words = Some (a_vec, b_vec, a2, b2, n_words2)"
    by simp
  with more have "\<not> n_words < 64" and "n_words2 = n_words - 64"
    by (auto simp add: avx512_b8_load_def Let_def split: if_splits option.splits)
  then have "unat n_words2 < unat n_words"
    by (simp add: unat_sub word_le_nat_alt not_less)
  then show "((a2, b2, n_words2, intersection_vec2, union_vec2),
       (a, b, n_words, intersection_vec, union_vec))
      \<in> measure (\<lambda>(a, b, n_words, intersection_vec, union_vec). unat n_words)"
    by simp
qed

declare avx512_b8_jaccard_cycle.simps [simp del]

definition simsimd_avx512_b8_jaccard ::
  "'f f32_arith \<Rightarrow> simsimd_b8_t list \<Rightarrow> simsimd_b8_t list \<Rightarrow> simsimd_size_t \<Rightarrow> 'f option" where
  "simsimd_avx512_b8_jaccard F a b n_words =
     (case avx512_b8_jaccard_cycle a b n_words 0 0 of None \<Rightarrow> None
      | Some (intersection_vec, union_vec) \<Rightarrow>
          Some (jaccard_return F (uint (mm512_reduce_add_epi64 intersection_vec))
                  (uint (mm512_reduce_add_epi64 union_vec))))"

section \<open>AVX2 kernels for signed bytes\<close>

type_synonym m256i = "256 word"
type_synonym m128i = "128 word"

definition mm256_loadu_si256 :: "8 word list \<Rightarrow> m256i option" where
  "mm256_loadu_si256 p = (if 32 \<le> length p then Some (pack (take 32 p)) else None)"

text \<open>\<^verbatim>\<open>_mm256_sub_epi8\<close>: the 32 byte lanes are subtracted, each wrapping around in 8 bits.\<close>

definition mm256_sub_epi8 :: "m256i \<Rightarrow> m256i \<Rightarrow> m256i" where
  "mm256_sub_epi8 x y = pack (map2 (-) (lanes 32 x :: 8 word list) (lanes 32 y))"

text \<open>
  \<^verbatim>\<open>_mm256_maddubs_epi16\<close>: each byte of the first operand, read as unsigned, is multiplied
  by the byte of the second operand in the same place, read as signed; the two products of
  each pair of neighbours are added and the sum is saturated to a signed 16-bit lane.
\<close>

definition saturate_i16 :: "int \<Rightarrow> 16 word" where
  "saturate_i16 v = word_of_int (max (- 32768) (min 32767 v))"

definition mm256_maddubs_epi16 :: "m256i \<Rightarrow> m256i \<Rightarrow> m256i" where
  "mm256_maddubs_epi16 x y =
     (let xs = lanes 32 x :: 8 word list; ys = lanes 32 y :: 8 word list
      in pack (map (\<lambda>k. saturate_i16 (uint (xs ! (2 * k)) * sint (ys ! (2 * k)) +
                                       uint (xs ! (2 * k + 1)) * sint (ys ! (2 * k + 1))))
                [0..<16]))"

text \<open>\<^verbatim>\<open>_mm256_add_epi32\<close> and \<^verbatim>\<open>_mm_add_epi32\<close> add 32-bit lanes.\<close>

definition mm256_add_epi32 :: "m256i \<Rightarrow> m256i \<Rightarrow> m256i" where
  "mm256_add_epi32 x y = pack (map2 (+) (lanes 8 x :: 32 word list) (lanes 8 y))"

definition mm256_extracti128_si256 :: "m256i \<Rightarrow> nat \<Rightarrow> m128i" where
  "mm256_extracti128_si256 x imm = ucast (drop_bit (128 * imm) x)"

definition mm_add_epi32 :: "m128i \<Rightarrow> m128i \<Rightarrow> m128i" where
  "mm_add_epi32 x y = pack (map2 (+) (lanes 4 x :: 32 word list) (lanes 4 y))"

text \<open>\<^verbatim>\<open>_mm_hadd_epi32(x, y)\<close> is \<open>[x0 + x1, x2 + x3, y0 + y1, y2 + y3]\<close>.\<close>

definition mm_hadd_epi32 :: "m128i \<Rightarrow> m128i \<Rightarrow> m128i" where
  "mm_hadd_epi32 x y =
     (let xs = lanes 4 x :: 32 word list; ys = lanes 4 y :: 32 word list
      in pack [xs ! 0 + xs ! 1, xs ! 2 + xs ! 3, ys ! 0 + ys ! 1, ys ! 2 + ys ! 3])"

definition mm_extract_epi32 :: "m128i \<Rightarrow> nat \<Rightarrow> 32 word" where
  "mm_extract_epi32 x imm = ucast (drop_bit (32 * imm) x)"

text \<open>
  The horizontal sum both kernels write out after their loop:
  \<^verbatim>\<open>__m128i d2_low = _mm256_extracti128_si256(d2_vec, 0);
  __m128i d2_high = _mm256_extracti128_si256(d2_vec, 1);
  __m128i d2_partial = _mm_add_epi32(d2_low, d2_high);
  int d2 = _mm_extract_epi32(_mm_hadd_epi32(_mm_hadd_epi32(d2_partial, d2_partial), d2_partial), 0);\<close>
\<close>

definition avx2_horizontal_sum :: "m256i \<Rightarrow> 32 word" where
  "avx2_horizontal_sum d2_vec =
     (let d2_low = mm256_extracti128_si256 d2_vec 0;
          d2_high = mm256_extracti128_si256 d2_vec 1;
          d2_partial = mm_add_epi32 d2_low d2_high
      in mm_extract_epi32 (mm_hadd_epi32 (mm_hadd_epi32 d2_partial d2_partial) d2_partial) 0)"

text \<open>
  \<^verbatim>\<open>for (; i + 31 < d; i += 32)\<close> of \<^verbatim>\<open>simsimd_avx2_i8_l2sq\<close>; \<open>i + 31\<close> wraps around in
  \<^verbatim>\<open>simsimd_size_t\<close>.
\<close>

partial_function (option) avx2_i8_l2sq_loop ::
  "simsimd_i8_t list \<Rightarrow> simsimd_i8_t list \<Rightarrow> simsimd_size_t \<Rightarrow> simsimd_size_t \<Rightarrow> m256i \<Rightarrow>
   (simsimd_size_t \<times> m256i) option" where
  "avx2_i8_l2sq_loop a b d i d2_vec =
     (if i + 31 < d then
        (case mm256_loadu_si256 (drop (unat i) a) of None \<Rightarrow> None | Some a_vec \<Rightarrow>
         (case mm256_loadu_si256 (drop (unat i) b) of None \<Rightarrow> None | Some b_vec \<Rightarrow>
            (let d_vec = mm256_sub_epi8 a_vec b_vec;
                 d_vec16 = mm256_maddubs_epi16 d_vec d_vec
             in avx2_i8_l2sq_loop a b d (i + 32) (mm256_add_epi32 d2_vec d_vec16))))
      else Some (i, d2_vec))"

declare avx2_i8_l2sq_loop.simps [code]

text \<open>
  \<^verbatim>\<open>for (; i < d; ++i) { int d = a[i] - b[i]; d2 += d * d; }\<close> The two bytes are promoted to
  \<^verbatim>\<open>int\<close> before the subtraction; the inner \<open>d\<close> (here \<open>dd\<close>) shadows the count in the body
  only.
\<close>

function avx2_i8_l2sq_tail ::
  "simsimd_i8_t list \<Rightarrow> simsimd_i8_t list \<Rightarrow> simsimd_size_t \<Rightarrow> simsimd_size_t \<Rightarrow> 32 word \<Rightarrow>
   32 word option" where
  "avx2_i8_l2sq_tail a b d i d2 =
     (if i < d then
        (case rd a (unat i) of None \<Rightarrow> None | Some x \<Rightarrow>
         (case rd b (unat i) of None \<Rightarrow> None | Some y \<Rightarrow>
            (let dd = (scast x :: 32 word) - scast y
             in avx2_i8_l2sq_tail a b d (i + 1) (d2 + dd * dd))))
      else Some d2)"
  by pat_completeness auto
termination
proof (relation "measure (\<lambda>(a, b, d, i, d2). unat d - unat i)")
  show "wf (measure (\<lambda>(a, b, d, i, d2). unat d - unat i))"
    by simp
next
  fix a b :: "simsimd_i8_t list" and d i :: simsimd_size_t and d2 dd :: "32 word" and x y
  assume "i < d"
  then have "unat i < unat d"
    by (simp add: word_less_nat_alt)
  moreover have "unat d < 2 ^ LENGTH(64)"
    by (rule unsigned_less)
  ultimately have "unat i + unat (1 :: 64 word) < 2 ^ LENGTH(64)"
    by simp
  then have "unat (i + 1) = unat i + unat (1 :: 64 word)"
    by (simp only: unat_add_lem)
  with \<open>unat i < unat d\<close> show "((a, b, d, i + 1, d2 + dd * dd), (a, b, d, i, d2))
      \<in> measure (\<lambda>(a, b, d, i, d2). unat d - unat i)"
    by simp
qed

declare avx2_i8_l2sq_tail.simps [simp del]

text \<open>The value of \<open>d2\<close> at the return statement, and \<^verbatim>\<open>return (simsimd_f32_t)d2\<close>.\<close>

definition avx2_i8_l2sq_d2 ::
  "simsimd_i8_t list \<Rightarrow> simsimd_i8_t list \<Rightarrow> simsimd_size_t \<Rightarrow> 32 word option" where
  "avx2_i8_l2sq_d2 a b d =
     (case avx2_i8_l2sq_loop a b d 0 0 of None \<Rightarrow> None
      | Some (i, d2_vec) \<Rightarrow> avx2_i8_l2sq_tail a b d i (avx2_horizontal_sum d2_vec))"

definition simsimd_avx2_i8_l2sq ::
  "'f f32_arith \<Rightarrow> simsimd_i8_t list \<Rightarrow> simsimd_i8_t list \<Rightarrow> simsimd_size_t \<Rightarrow> 'f option" where
  "simsimd_avx2_i8_l2sq F a b d =
     (case avx2_i8_l2sq_d2 a b d of None \<Rightarrow> None
      | Some d2 \<Rightarrow> Some (f32_of_int F (sint d2)))"

text \<open>
  The loop of \<^verbatim>\<open>simsimd_avx2_i8_cos\<close>: three products by \<^verbatim>\<open>_mm256_maddubs_epi16\<close>, each
  added to its accumulator by \<^verbatim>\<open>_mm256_add_epi32\<close>.
\<close>

partial_function (option) avx2_i8_cos_loop ::
  "simsimd_i8_t list \<Rightarrow> simsimd_i8_t list \<Rightarrow> simsimd_size_t \<Rightarrow> simsimd_size_t \<Rightarrow>
   m256i \<Rightarrow> m256i \<Rightarrow> m256i \<Rightarrow> (simsimd_size_t \<times> m256i \<times> m256i \<times> m256i) option" where
  "avx2_i8_cos_loop a b d i ab_vec a2_vec b2_vec =
     (if i + 31 < d then
        (case mm256_loadu_si256 (drop (unat i) a) of None \<Rightarrow> None | Some a_vec \<Rightarrow>
         (case mm256_loadu_si256 (drop (unat i) b) of None \<Rightarrow> None | Some b_vec \<Rightarrow>
            (let ab_part_vec = mm256_maddubs_epi16 a_vec b_vec;
                 a2_part_vec = mm256_maddubs_epi16 a_vec a_vec;
                 b2_part_vec = mm256_maddubs_epi16 b_vec b_vec
             in avx2_i8_cos_loop a b d (i + 32)
                  (mm256_add_epi32 ab_vec ab_part_vec)
                  (mm256_add_epi32 a2_vec a2_part_vec)
                  (mm256_add_epi32 b2_vec b2_part_vec))))
      else Some (i, ab_vec, a2_vec, b2_vec))"

declare avx2_i8_cos_loop.simps [code]

text \<open>
  \<^verbatim>\<open>for (; i < d; ++i) { int ai = a[i], bi = b[i]; ab += ai * bi, a2 += ai * ai, b2 += bi * bi; }\<close>
\<close>

function avx2_i8_cos_tail ::
  "simsimd_i8_t list \<Rightarrow> simsimd_i8_t list \<Rightarrow> simsimd_size_t \<Rightarrow> simsimd_size_t \<Rightarrow>
   32 word \<Rightarrow> 32 word \<Rightarrow> 32 word \<Rightarrow> (32 word \<times> 32 word \<times> 32 word) option" where
  "avx2_i8_cos_tail a b d i ab a2 b2 =
     (if i < d then
        (case rd a (unat i) of None \<Rightarrow> None | Some x \<Rightarrow>
         (case rd b (unat i) of None \<Rightarrow> None | Some y \<Rightarrow>
            (let ai = scast x :: 32 word; bi = scast y :: 32 word
             in avx2_i8_cos_tail a b d (i + 1) (ab + ai * bi) (a2 + ai * ai) (b2 + bi * bi))))
      else Some (ab, a2, b2))"
  by pat_completeness auto
termination
proof (relation "measure (\<lambda>(a, b, d, i, ab, a2, b2). unat d - unat i)")
  show "wf (measure (\<lambda>(a, b, d, i, ab, a2, b2). unat d - unat i))"
    by simp
next
  fix a b :: "simsimd_i8_t list" and d i :: simsimd_size_t
  fix ab a2 b2 ai bi :: "32 word" and x y
  assume "i < d"
  then have "unat i < unat d"
    by (simp add: word_less_nat_alt)
  moreover have "unat d < 2 ^ LENGTH(64)"
    by (rule unsigned_less)
  ultimately have "unat i + unat (1 :: 64 word) < 2 ^ LENGTH(64)"
    by simp
  then have "unat (i + 1) = unat i + unat (1 :: 64 word)"
    by (simp only: unat_add_lem)
  with \<open>unat i < unat d\<close>
  show "((a, b, d, i + 1, ab + ai * bi, a2 + ai * ai, b2 + bi * bi), (a, b, d, i, ab, a2, b2))
      \<in> measure (\<lambda>(a, b, d, i, ab, a2, b2). unat d - unat i)"
    by simp
qed

declare avx2_i8_cos_tail.simps [simp del]

text \<open>The values of \<open>ab\<close>, \<open>a2\<close> and \<open>b2\<close> at the return statement.\<close>

definition avx2_i8_cos_sums ::
  "simsimd_i8_t list \<Rightarrow> simsimd_i8_t list \<Rightarrow> simsimd_size_t \<Rightarrow>
   (32 word \<times> 32 word \<times> 32 word) option" where
  "avx2_i8_cos_sums a b d =
     (case avx2_i8_cos_loop a b d 0 0 0 0 of None \<Rightarrow> None
      | Some (i, ab_vec, a2_vec, b2_vec) \<Rightarrow>
          avx2_i8_cos_tail a b d i (avx2_horizontal_sum ab_vec) (avx2_horizontal_sum a2_vec)
            (avx2_horizontal_sum b2_vec))"

text \<open>
  \<^verbatim>\<open>return 1 - ab * simsimd_approximate_inverse_square_root(a2 * b2);\<close>
  The product \<open>a2 * b2\<close> is an \<^verbatim>\<open>int\<close> and wraps around. The function
  \<^verbatim>\<open>simsimd_approximate_inverse_square_root\<close> is declared in \<^verbatim>\<open>types.h\<close>, which is not among
  the sources: it is the parameter \<open>rsqrt\<close>, a function on floats.
\<close>

definition simsimd_avx2_i8_cos ::
  "'f f32_arith \<Rightarrow> ('f \<Rightarrow> 'f) \<Rightarrow> simsimd_i8_t list \<Rightarrow> simsimd_i8_t list \<Rightarrow> simsimd_size_t \<Rightarrow>
   'f option" where
  "simsimd_avx2_i8_cos F rsqrt a b d =
     (case avx2_i8_cos_sums a b d of None \<Rightarrow> None
      | Some (ab, a2, b2) \<Rightarrow>
          Some (f32_sub F (f32_of_int F 1)
                  (f32_mul F (f32_of_int F (sint ab)) (rsqrt (f32_of_int F (sint (a2 * b2)))))))"

definition simsimd_avx2_i8_ip ::
  "'f f32_arith \<Rightarrow> ('f \<Rightarrow> 'f) \<Rightarrow> simsimd_i8_t list \<Rightarrow> simsimd_i8_t list \<Rightarrow> simsimd_size_t \<Rightarrow>
   'f option" where
  "simsimd_avx2_i8_ip F rsqrt a b d = simsimd_avx2_i8_cos F rsqrt a b d"

section \<open>Counting the bits the kernels count\<close>

text \<open>
  The number of set bits of \<open>f (a[k]) (b[k])\<close> over the words \<open>i \<le> k < n\<close>, as a natural
  number: what a kernel's counter holds when nothing wraps around.
\<close>

definition bits_between ::
  "(8 word \<Rightarrow> 8 word \<Rightarrow> 8 word) \<Rightarrow> 8 word list \<Rightarrow> 8 word list \<Rightarrow> nat \<Rightarrow> nat \<Rightarrow> nat" where
  "bits_between f a b i n = (\<Sum>k = i..<n. set_bits (f (a ! k) (b ! k)))"

text \<open>
  What the specification says the signed-byte kernels accumulate, in unbounded integers:
  the sum of the squared differences and the dot product of the first \<open>d\<close> elements.
\<close>

definition sum_of_squared_differences ::
  "simsimd_i8_t list \<Rightarrow> simsimd_i8_t list \<Rightarrow> nat \<Rightarrow> int" where
  "sum_of_squared_differences a b d = (\<Sum>i = 0..<d. (sint (a ! i) - sint (b ! i))\<^sup>2)"

definition dot_product :: "simsimd_i8_t list \<Rightarrow> simsimd_i8_t list \<Rightarrow> nat \<Rightarrow> int" where
  "dot_product a b d = (\<Sum>i = 0..<d. sint (a ! i) * sint (b ! i))"

section \<open>The lookup table\<close>

lemma lookup_table_length: "length lookup_table = 256"
  by (simp add: lookup_table_def)

lemma set_bits_card: "set_bits (w :: 'a::len word) = card {n. bit w n}"
proof -
  have "{n. bit w n} = set (filter (bit w) [0..<LENGTH('a)])"
    by (auto simp: bit_imp_le_length)
  moreover have "distinct (filter (bit w) [0..<LENGTH('a)])"
    by simp
  ultimately show ?thesis
    unfolding set_bits_def by (metis distinct_card)
qed

lemma set_bits_le: "set_bits (w :: 'a::len word) \<le> LENGTH('a)"
  unfolding set_bits_def by (metis length_filter_le length_upt diff_zero)

lemma set_bits_zero [simp]: "set_bits (0 :: 'a::len word) = 0"
  by (simp add: set_bits_def)

lemma lookup_table_entries:
  "list_all (\<lambda>k. unat (lookup_table ! k) = set_bits (word_of_nat k :: 8 word)) [0..<256]"
  by code_simp

lemma popcount_b8_set_bits: "unat (simsimd_popcount_b8 x) = set_bits x"
proof -
  have "unat x < 256"
    using unsigned_less [of x, where ?'a = nat] by simp
  then have "unat (lookup_table ! unat x) = set_bits (word_of_nat (unat x) :: 8 word)"
    using lookup_table_entries by (simp add: list_all_iff)
  then show ?thesis
    by (simp add: simsimd_popcount_b8_def)
qed

lemma ucast_popcount_b8: "(ucast (simsimd_popcount_b8 x) :: 32 word) = word_of_nat (set_bits x)"
proof -
  have "(ucast (simsimd_popcount_b8 x) :: 32 word) = of_nat (unat (simsimd_popcount_b8 x))"
    by simp
  then show ?thesis
    by (simp only: popcount_b8_set_bits)
qed

text \<open>
  C9. For every byte \<open>x\<close>, \<^verbatim>\<open>simsimd_popcount_b8(x)\<close> is the number of set bits of \<open>x\<close>, a
  value from 0 to 8, read from a table of 256 entries at index \<open>x\<close>; the index is in range
  for every byte, so there is no error case.
\<close>

theorem simsimd_popcount_b8_counts_bits:
  "unat x < length lookup_table \<and> length lookup_table = 256 \<and>
   unat (simsimd_popcount_b8 x) = card {n. bit x n} \<and> unat (simsimd_popcount_b8 x) \<le> 8"
proof -
  have "unat x < 256"
    using unsigned_less [of x, where ?'a = nat] by simp
  moreover have "set_bits x \<le> 8"
    using set_bits_le [of x] by simp
  ultimately show ?thesis
    by (simp add: lookup_table_length popcount_b8_set_bits set_bits_card [symmetric])
qed

section \<open>The scalar loops in closed form\<close>

lemma bits_between_empty [simp]: "bits_between f a b i i = 0"
  by (simp add: bits_between_def)

lemma bits_between_first:
  "i < n \<Longrightarrow> bits_between f a b i n = set_bits (f (a ! i) (b ! i)) + bits_between f a b (Suc i) n"
  by (simp add: bits_between_def sum.atLeast_Suc_lessThan)

lemma bits_between_split:
  "i \<le> j \<Longrightarrow> j \<le> n \<Longrightarrow> bits_between f a b i n = bits_between f a b i j + bits_between f a b j n"
  by (simp add: bits_between_def sum.atLeastLessThan_concat)

lemma rd_Some: "i < length p \<Longrightarrow> rd p i = Some (p ! i)"
  by (simp add: rd_def)

lemma unat_size_t_succ:
  fixes i n :: "64 word"
  assumes "unat i < unat n"
  shows "unat (i + 1) = Suc (unat i)"
proof -
  have "unat n < 2 ^ LENGTH(64)"
    by (rule unsigned_less)
  with assms have "unat i + unat (1 :: 64 word) < 2 ^ LENGTH(64)"
    by simp
  then have "unat (i + 1) = unat i + unat (1 :: 64 word)"
    by (simp only: unat_add_lem)
  then show ?thesis
    by simp
qed

lemma b8_hamming_loop_sum:
  assumes "unat i \<le> unat n" and "unat n \<le> length a" and "unat n \<le> length b"
  shows "b8_hamming_loop a b n i acc =
           Some (acc + word_of_nat (bits_between (XOR) a b (unat i) (unat n)))"
  using assms
proof (induction "unat n - unat i" arbitrary: i acc)
  case 0
  then have "i = n"
    by (simp add: word_unat_eq_iff)
  then show ?case
    by (simp add: b8_hamming_loop.simps)
next
  case (Suc m)
  then have lt: "unat i < unat n"
    by simp
  then have ne: "i \<noteq> n"
    by auto
  have succ: "unat (i + 1) = Suc (unat i)"
    using lt by (rule unat_size_t_succ)
  have "b8_hamming_loop a b n (i + 1) (acc + ucast (simsimd_popcount_b8 (a ! unat i XOR b ! unat i))) =
      Some (acc + ucast (simsimd_popcount_b8 (a ! unat i XOR b ! unat i)) +
        word_of_nat (bits_between (XOR) a b (unat (i + 1)) (unat n)))"
    using Suc.hyps(2) Suc.prems lt by (intro Suc.hyps(1)) (simp_all add: succ)
  moreover have "rd a (unat i) = Some (a ! unat i)" "rd b (unat i) = Some (b ! unat i)"
    using lt Suc.prems by (simp_all add: rd_Some)
  ultimately show ?case
    using lt ne
    by (subst b8_hamming_loop.simps)
      (simp add: succ ucast_popcount_b8 bits_between_first [of "unat i" "unat n"] add.assoc)
qed

lemma b8_jaccard_loop_sum:
  assumes "unat i \<le> unat n" and "unat n \<le> length a" and "unat n \<le> length b"
  shows "b8_jaccard_loop a b n i acc1 acc2 =
           Some (acc1 + word_of_nat (bits_between (AND) a b (unat i) (unat n)),
                 acc2 + word_of_nat (bits_between (OR) a b (unat i) (unat n)))"
  using assms
proof (induction "unat n - unat i" arbitrary: i acc1 acc2)
  case 0
  then have "i = n"
    by (simp add: word_unat_eq_iff)
  then show ?case
    by (simp add: b8_jaccard_loop.simps)
next
  case (Suc m)
  then have lt: "unat i < unat n"
    by simp
  then have ne: "i \<noteq> n"
    by auto
  have succ: "unat (i + 1) = Suc (unat i)"
    using lt by (rule unat_size_t_succ)
  have "b8_jaccard_loop a b n (i + 1)
        (acc1 + ucast (simsimd_popcount_b8 (a ! unat i AND b ! unat i)))
        (acc2 + ucast (simsimd_popcount_b8 (a ! unat i OR b ! unat i))) =
      Some (acc1 + ucast (simsimd_popcount_b8 (a ! unat i AND b ! unat i)) +
              word_of_nat (bits_between (AND) a b (unat (i + 1)) (unat n)),
            acc2 + ucast (simsimd_popcount_b8 (a ! unat i OR b ! unat i)) +
              word_of_nat (bits_between (OR) a b (unat (i + 1)) (unat n)))"
    using Suc.hyps(2) Suc.prems lt by (intro Suc.hyps(1)) (simp_all add: succ)
  moreover have "rd a (unat i) = Some (a ! unat i)" "rd b (unat i) = Some (b ! unat i)"
    using lt Suc.prems by (simp_all add: rd_Some)
  ultimately show ?case
    using lt ne
    by (subst b8_jaccard_loop.simps)
      (simp add: succ ucast_popcount_b8 bits_between_first [of "unat i" "unat n"] add.assoc)
qed

lemma b8_hamming_loop_commute: "b8_hamming_loop a b n i acc = b8_hamming_loop b a n i acc"
proof (induction a b n i acc rule: b8_hamming_loop.induct)
  case (1 a b n_words i differences)
  show ?case
  proof (cases "i \<noteq> n_words")
    case False
    then show ?thesis
      by (simp add: b8_hamming_loop.simps)
  next
    case True
    show ?thesis
    proof (cases "rd a (unat i)")
      case None
      then show ?thesis
        using True
        by (subst b8_hamming_loop.simps, subst (2) b8_hamming_loop.simps)
          (simp split: option.splits)
    next
      case (Some x)
      note x = this
      show ?thesis
      proof (cases "rd b (unat i)")
        case None
        then show ?thesis
          using True x
          by (subst b8_hamming_loop.simps, subst (2) b8_hamming_loop.simps) simp
      next
        case (Some y)
        have "b8_hamming_loop a b n_words (i + 1)
            (differences + ucast (simsimd_popcount_b8 (x XOR y))) =
          b8_hamming_loop b a n_words (i + 1)
            (differences + ucast (simsimd_popcount_b8 (x XOR y)))"
          using True x Some by (rule "1.IH")
        then show ?thesis
          using True x Some
          by (subst b8_hamming_loop.simps, subst (2) b8_hamming_loop.simps)
            (simp add: xor.commute)
      qed
    qed
  qed
qed

text \<open>
  C8. The serial Hamming kernel is symmetric in its two operands, for every pair of
  buffers and every count (also where a read fails), and on two equal operands of at least
  \<open>n_words\<close> bytes it returns 0.
\<close>

theorem simsimd_serial_b8_hamming_symmetry_identity:
  "simsimd_serial_b8_hamming F a b n = simsimd_serial_b8_hamming F b a n \<and>
   (unat n \<le> length a \<longrightarrow> simsimd_serial_b8_hamming F a a n = Some (f32_of_int F 0))"
proof -
  have "simsimd_serial_b8_hamming F a a n = Some (f32_of_int F 0)" if "unat n \<le> length a"
    using that
    by (simp add: simsimd_serial_b8_hamming_def b8_hamming_loop_sum bits_between_def)
  then show ?thesis
    by (simp add: simsimd_serial_b8_hamming_def b8_hamming_loop_commute [of a b])
qed

theorem simsimd_serial_b8_hamming_symmetry_identity_witness:
  "unat (3 :: 64 word) \<le> length [255, 15, 1 :: 8 word] \<and>
   simsimd_serial_b8_hamming exact_arith [255, 15, 1] [0, 240, 3] 3 = Some 17 \<and>
   simsimd_serial_b8_hamming exact_arith [0, 240, 3] [255, 15, 1] 3 = Some 17 \<and>
   simsimd_serial_b8_hamming exact_arith [255, 15, 1] [255, 15, 1] 3 = Some 0"
proof -
  have "simsimd_serial_b8_hamming exact_arith [255, 15, 1] [0, 240, 3] 3 = Some 17"
    by code_simp
  then show ?thesis
    using simsimd_serial_b8_hamming_symmetry_identity
      [of exact_arith "[255, 15, 1]" "[0, 240, 3]" 3]
    by (simp add: exact_arith_def)
qed

section \<open>The NEON kernels in closed form\<close>

lemma sum_list_map2_window:
  fixes g :: "8 word \<Rightarrow> nat"
  assumes "i + m \<le> length a" and "i + m \<le> length b"
  shows "sum_list (map g (map2 f (take m (drop i a)) (take m (drop i b)))) =
           (\<Sum>k = i..<i + m. g (f (a ! k) (b ! k)))"
proof -
  let ?xs = "map g (map2 f (take m (drop i a)) (take m (drop i b)))"
  have len: "length ?xs = m"
    using assms by simp
  have "sum_list ?xs = (\<Sum>j = 0..<m. ?xs ! j)"
    using len by (simp add: sum_list_sum_nth)
  also have "\<dots> = (\<Sum>j = 0..<m. g (f (a ! (j + i)) (b ! (j + i))))"
    using assms by (intro sum.cong) (simp_all add: add.commute)
  also have "\<dots> = (\<Sum>k = 0 + i..<m + i. g (f (a ! k) (b ! k)))"
    by (simp only: sum.shift_bounds_nat_ivl)
  finally show ?thesis
    by (simp add: add.commute)
qed

lemma bits_between_window:
  assumes "i + m \<le> length a" and "i + m \<le> length b"
  shows "sum_list (map set_bits (map2 f (take m (drop i a)) (take m (drop i b)))) =
           bits_between f a b i (i + m)"
  unfolding bits_between_def using assms by (rule sum_list_map2_window)

lemma bits_between_le: "bits_between f a b i n \<le> 8 * (n - i)"
proof -
  have "bits_between f a b i n \<le> (\<Sum>k = i..<n. 8)"
    unfolding bits_between_def
    by (intro sum_mono) (use set_bits_le [where ?'a = 8] in simp)
  then show ?thesis
    by simp
qed

lemma sum_list_word_of_nat:
  "sum_list (map (\<lambda>l. word_of_nat (g l)) xs) = (word_of_nat (sum_list (map g xs)) :: 'a::len word)"
  by (induction xs) simp_all

lemma ucast_word_of_nat_small:
  "c < 256 \<Longrightarrow> (ucast (word_of_nat c :: 8 word) :: 32 word) = word_of_nat c"
  by (simp add: unsigned_of_nat take_bit_nat_eq_self)

lemma neon_chunk:
  assumes "i + 16 \<le> length a" and "i + 16 \<le> length b"
  shows "(ucast (vaddvq_u8 (vcntq_u8 (map2 f (take 16 (drop i a)) (take 16 (drop i b))))) :: 32 word) =
           word_of_nat (bits_between f a b i (i + 16))"
proof -
  have "bits_between f a b i (i + 16) < 256"
    using bits_between_le [of f a b i "i + 16"] by simp
  then show ?thesis
    using assms
    by (simp add: vaddvq_u8_def vcntq_u8_def sum_list_word_of_nat map_map [symmetric]
        bits_between_window ucast_word_of_nat_small del: map_map)
qed

lemma vld1q_u8_drop: "i + 16 \<le> length p \<Longrightarrow> vld1q_u8 (drop i p) = Some (take 16 (drop i p))"
  by (simp add: vld1q_u8_def)

lemma unat_size_t_add:
  fixes i :: "64 word"
  assumes "unat i + k < 2 ^ 64"
  shows "unat (i + word_of_nat k) = unat i + k"
proof -
  have k: "unat (word_of_nat k :: 64 word) = k"
    using assms by (simp add: unat_of_nat)
  then have "unat i + unat (word_of_nat k :: 64 word) < 2 ^ LENGTH(64)"
    using assms by simp
  then have "unat (i + word_of_nat k) = unat i + unat (word_of_nat k :: 64 word)"
    by (simp only: unat_add_lem)
  with k show ?thesis
    by simp
qed

lemma neon_b8_hamming_loop_sum:
  assumes "unat i \<le> unat n" and "unat n \<le> length a" and "unat n \<le> length b"
    and "unat n < 2 ^ 64 - 16"
  shows "\<exists>j. neon_b8_hamming_loop a b n i acc =
             Some (j, acc + word_of_nat (bits_between (XOR) a b (unat i) (unat j))) \<and>
           unat i \<le> unat j \<and> unat j \<le> unat n"
  using assms
proof (induction "unat n - unat i" arbitrary: i acc rule: less_induct)
  case less
  have step: "unat (i + 16) = unat i + 16"
    using unat_size_t_add [of i 16] less.prems by simp
  show ?case
  proof (cases "i + 16 \<le> n")
    case False
    then show ?thesis
      using less.prems by (subst neon_b8_hamming_loop.simps) simp
  next
    case True
    then have le: "unat i + 16 \<le> unat n"
      by (simp add: word_le_nat_alt step)
    let ?acc = "acc + word_of_nat (bits_between (XOR) a b (unat i) (unat i + 16))"
    have dec: "unat n - unat (i + 16) < unat n - unat i"
      using le by (simp add: step)
    have "\<exists>j. neon_b8_hamming_loop a b n (i + 16) ?acc =
        Some (j, ?acc + word_of_nat (bits_between (XOR) a b (unat (i + 16)) (unat j))) \<and>
        unat (i + 16) \<le> unat j \<and> unat j \<le> unat n"
      by (rule less.hyps [OF dec]) (use less.prems le in \<open>simp_all add: step\<close>)
    then obtain j where j: "neon_b8_hamming_loop a b n (i + 16) ?acc =
        Some (j, ?acc + word_of_nat (bits_between (XOR) a b (unat (i + 16)) (unat j)))"
      "unat (i + 16) \<le> unat j" "unat j \<le> unat n"
      by blast
    have "neon_b8_hamming_loop a b n i acc = neon_b8_hamming_loop a b n (i + 16) ?acc"
      using True le less.prems
      by (subst neon_b8_hamming_loop.simps)
        (simp add: vld1q_u8_drop veorq_u8_def neon_chunk)
    moreover have "bits_between (XOR) a b (unat i) (unat j) =
        bits_between (XOR) a b (unat i) (unat i + 16) + bits_between (XOR) a b (unat i + 16) (unat j)"
      using j(2) by (intro bits_between_split) (simp_all add: step)
    ultimately show ?thesis
      using j by (auto simp add: step add.assoc)
  qed
qed

lemma neon_b8_jaccard_loop_sum:
  assumes "unat i \<le> unat n" and "unat n \<le> length a" and "unat n \<le> length b"
    and "unat n < 2 ^ 64 - 16"
  shows "\<exists>j. neon_b8_jaccard_loop a b n i acc1 acc2 =
             Some (j, acc1 + word_of_nat (bits_between (AND) a b (unat i) (unat j)),
                      acc2 + word_of_nat (bits_between (OR) a b (unat i) (unat j))) \<and>
           unat i \<le> unat j \<and> unat j \<le> unat n"
  using assms
proof (induction "unat n - unat i" arbitrary: i acc1 acc2 rule: less_induct)
  case less
  have step: "unat (i + 16) = unat i + 16"
    using unat_size_t_add [of i 16] less.prems by simp
  show ?case
  proof (cases "i + 16 \<le> n")
    case False
    then show ?thesis
      using less.prems by (subst neon_b8_jaccard_loop.simps) simp
  next
    case True
    then have le: "unat i + 16 \<le> unat n"
      by (simp add: word_le_nat_alt step)
    let ?acc1 = "acc1 + word_of_nat (bits_between (AND) a b (unat i) (unat i + 16))"
    let ?acc2 = "acc2 + word_of_nat (bits_between (OR) a b (unat i) (unat i + 16))"
    have dec: "unat n - unat (i + 16) < unat n - unat i"
      using le by (simp add: step)
    have "\<exists>j. neon_b8_jaccard_loop a b n (i + 16) ?acc1 ?acc2 =
        Some (j, ?acc1 + word_of_nat (bits_between (AND) a b (unat (i + 16)) (unat j)),
                 ?acc2 + word_of_nat (bits_between (OR) a b (unat (i + 16)) (unat j))) \<and>
        unat (i + 16) \<le> unat j \<and> unat j \<le> unat n"
      by (rule less.hyps [OF dec]) (use less.prems le in \<open>simp_all add: step\<close>)
    then obtain j where j: "neon_b8_jaccard_loop a b n (i + 16) ?acc1 ?acc2 =
        Some (j, ?acc1 + word_of_nat (bits_between (AND) a b (unat (i + 16)) (unat j)),
                 ?acc2 + word_of_nat (bits_between (OR) a b (unat (i + 16)) (unat j)))"
      "unat (i + 16) \<le> unat j" "unat j \<le> unat n"
      by blast
    have "neon_b8_jaccard_loop a b n i acc1 acc2 =
        neon_b8_jaccard_loop a b n (i + 16) ?acc1 ?acc2"
      using True le less.prems
      by (subst neon_b8_jaccard_loop.simps)
        (simp add: vld1q_u8_drop vandq_u8_def vorrq_u8_def neon_chunk)
    moreover have "bits_between f a b (unat i) (unat j) =
        bits_between f a b (unat i) (unat i + 16) + bits_between f a b (unat i + 16) (unat j)" for f
      using j(2) by (intro bits_between_split) (simp_all add: step)
    ultimately show ?thesis
      using j by (auto simp add: step add.assoc)
  qed
qed

lemma simsimd_serial_b8_hamming_value:
  assumes "unat n \<le> length a" and "unat n \<le> length b"
  shows "simsimd_serial_b8_hamming F a b n =
           Some (f32_of_int F (sint (word_of_nat (bits_between (XOR) a b 0 (unat n)) :: 32 word)))"
  using assms by (simp add: simsimd_serial_b8_hamming_def b8_hamming_loop_sum)

lemma simsimd_serial_b8_jaccard_value:
  assumes "unat n \<le> length a" and "unat n \<le> length b"
  shows "simsimd_serial_b8_jaccard F a b n =
           Some (jaccard_return F
             (sint (word_of_nat (bits_between (AND) a b 0 (unat n)) :: 32 word))
             (sint (word_of_nat (bits_between (OR) a b 0 (unat n)) :: 32 word)))"
  using assms by (simp add: simsimd_serial_b8_jaccard_def b8_jaccard_loop_sum)

lemma simsimd_neon_b8_hamming_value:
  assumes "unat n \<le> length a" and "unat n \<le> length b" and "unat n < 2 ^ 64 - 16"
  shows "simsimd_neon_b8_hamming F a b n =
           Some (f32_of_int F (sint (word_of_nat (bits_between (XOR) a b 0 (unat n)) :: 32 word)))"
proof -
  obtain j where j: "neon_b8_hamming_loop a b n 0 0 =
      Some (j, word_of_nat (bits_between (XOR) a b 0 (unat j)))" "unat j \<le> unat n"
    using neon_b8_hamming_loop_sum [of 0 n a b 0] assms by auto
  have "bits_between (XOR) a b 0 (unat n) =
      bits_between (XOR) a b 0 (unat j) + bits_between (XOR) a b (unat j) (unat n)"
    using j(2) by (intro bits_between_split) simp_all
  then show ?thesis
    using j assms by (simp add: simsimd_neon_b8_hamming_def b8_hamming_loop_sum)
qed

lemma simsimd_neon_b8_jaccard_value:
  assumes "unat n \<le> length a" and "unat n \<le> length b" and "unat n < 2 ^ 64 - 16"
  shows "simsimd_neon_b8_jaccard F a b n =
           Some (jaccard_return F
             (sint (word_of_nat (bits_between (AND) a b 0 (unat n)) :: 32 word))
             (sint (word_of_nat (bits_between (OR) a b 0 (unat n)) :: 32 word)))"
proof -
  obtain j where j: "neon_b8_jaccard_loop a b n 0 0 0 =
      Some (j, word_of_nat (bits_between (AND) a b 0 (unat j)),
               word_of_nat (bits_between (OR) a b 0 (unat j)))" "unat j \<le> unat n"
    using neon_b8_jaccard_loop_sum [of 0 n a b 0 0] assms by auto
  have "bits_between f a b 0 (unat n) =
      bits_between f a b 0 (unat j) + bits_between f a b (unat j) (unat n)" for f
    using j(2) by (intro bits_between_split) simp_all
  then show ?thesis
    using j assms by (simp add: simsimd_neon_b8_jaccard_def b8_jaccard_loop_sum)
qed

section \<open>The SVE kernels in closed form\<close>

lemma whilelo_eq:
  "whilelo e x y lst = map (\<lambda>k. lst \<and> unat x + k < unat y) [0..<e]"
proof (induction e arbitrary: x lst)
  case 0
  then show ?case by simp
next
  case (Suc e)
  have "((lst \<and> x < y) \<and> unat (x + 1) + k < unat y) = (lst \<and> unat x + Suc k < unat y)" for k
  proof (cases "x < y")
    case True
    then have "unat x < unat y"
      by (simp add: word_less_nat_alt)
    moreover have "unat y < 2 ^ LENGTH(32)"
      by (rule unsigned_less)
    ultimately have "unat x + unat (1 :: 32 word) < 2 ^ LENGTH(32)"
      by simp
    then have "unat (x + 1) = unat x + unat (1 :: 32 word)"
      by (simp only: unat_add_lem)
    then show ?thesis
      using True by simp
  next
    case False
    then have "unat y \<le> unat x"
      by (simp add: word_less_nat_alt)
    then show ?thesis
      using False by simp
  qed
  then show ?case
    by (simp add: Suc.IH map_upt_Suc Let_def word_less_nat_alt del: upt_Suc)
qed

lemma those_map_Some:
  "(\<And>x. x \<in> set xs \<Longrightarrow> f x = Some (g x)) \<Longrightarrow> those (map f xs) = Some (map g xs)"
  by (induction xs) simp_all

lemma zip_upt_map: "zip [0..<n] (map P [0..<n]) = map (\<lambda>k. (k, P k)) [0..<n]"
  by (simp add: zip_map2 zip_same_conv_map)

lemma svld1_u8_window:
  assumes "\<And>k. k < vl \<Longrightarrow> P k \<Longrightarrow> k < length p"
  shows "svld1_u8 (map P [0..<vl]) p = Some (map (\<lambda>k. if P k then p ! k else 0) [0..<vl])"
proof -
  have "those (map (\<lambda>k. if P k then rd p k else Some 0) [0..<vl]) =
      Some (map (\<lambda>k. if P k then p ! k else 0) [0..<vl])"
    using assms by (intro those_map_Some) (simp add: rd_def)
  then show ?thesis
    by (simp add: svld1_u8_def zip_upt_map comp_def)
qed

lemma sve_lane_sum:
  fixes f :: "8 word \<Rightarrow> 8 word \<Rightarrow> 8 word"
  assumes "f 0 0 = 0" and "i \<le> n"
  shows "(\<Sum>k = 0..<vl. set_bits (f (if i + k < n then a ! (i + k) else 0)
                                    (if i + k < n then b ! (i + k) else 0))) =
           bits_between f a b i (min (i + vl) n)"
proof -
  let ?g = "\<lambda>k. set_bits (f (a ! k) (b ! k))"
  have "(\<Sum>k = 0..<vl. set_bits (f (if i + k < n then a ! (i + k) else 0)
                                    (if i + k < n then b ! (i + k) else 0))) =
      (\<Sum>k = 0..<vl. if i + k < n then ?g (i + k) else 0)"
    using assms(1) by (intro sum.cong) simp_all
  also have "\<dots> = (\<Sum>k \<in> {0..<vl} \<inter> {k. i + k < n}. ?g (i + k))"
    by (simp add: sum.inter_restrict)
  also have "{0..<vl} \<inter> {k. i + k < n} = {0..<min vl (n - i)}"
    by auto
  also have "(\<Sum>k = 0..<min vl (n - i). ?g (i + k)) = (\<Sum>k = i..<min vl (n - i) + i. ?g k)"
    using sum.shift_bounds_nat_ivl [of ?g 0 i "min vl (n - i)"] by (simp add: add.commute)
  also have "min vl (n - i) + i = min (i + vl) n"
    using assms(2) by simp
  finally show ?thesis
    by (simp add: bits_between_def)
qed

lemma ucast_set_bits_b8: "(ucast (word_of_nat (set_bits (x :: 8 word)) :: 8 word) :: 64 word) = word_of_nat (set_bits x)"
proof -
  have "set_bits x < 2 ^ 8"
    using set_bits_le [of x] by simp
  then show ?thesis
    by (simp add: unsigned_of_nat take_bit_nat_eq_self)
qed

lemma sve_body_count:
  fixes f :: "8 word \<Rightarrow> 8 word \<Rightarrow> 8 word"
  assumes "f 0 0 = 0" and "i \<le> n"
  shows "svaddv_u8 (svptrue_b8 vl) (svcnt_u8_x (svptrue_b8 vl)
           (map (\<lambda>(active, l, r). if active then f l r else l)
             (zip (svptrue_b8 vl)
               (zip (map (\<lambda>k. if i + k < n then a ! (i + k) else 0) [0..<vl])
                    (map (\<lambda>k. if i + k < n then b ! (i + k) else 0) [0..<vl]))))) =
         word_of_nat (bits_between f a b i (min (i + vl) n))"
proof -
  have "svaddv_u8 (svptrue_b8 vl) (svcnt_u8_x (svptrue_b8 vl)
           (map (\<lambda>(active, l, r). if active then f l r else l)
             (zip (svptrue_b8 vl)
               (zip (map (\<lambda>k. if i + k < n then a ! (i + k) else 0) [0..<vl])
                    (map (\<lambda>k. if i + k < n then b ! (i + k) else 0) [0..<vl]))))) =
      (\<Sum>k = 0..<vl. word_of_nat (set_bits (f (if i + k < n then a ! (i + k) else 0)
                                    (if i + k < n then b ! (i + k) else 0))))"
    unfolding svaddv_u8_def svcnt_u8_x_def svptrue_b8_def
    by (subst sum_list_sum_nth, simp, rule sum.cong) (simp_all add: ucast_set_bits_b8)
  also have "\<dots> = word_of_nat (\<Sum>k = 0..<vl. set_bits (f (if i + k < n then a ! (i + k) else 0)
                                    (if i + k < n then b ! (i + k) else 0)))"
    by simp
  finally show ?thesis
    using assms by (simp only: sve_lane_sum)
qed

lemma ucast_scast_add:
  "(ucast ((scast (acc :: 32 word) :: 64 word) + word_of_nat c) :: 32 word) = acc + word_of_nat c"
proof -
  have "(ucast ((scast acc :: 64 word) + word_of_nat c) :: 32 word) =
      ucast (scast acc :: 64 word) + ucast (word_of_nat c :: 64 word)"
    by (simp add: word_uint_eq_iff uint_word_ariths unsigned_ucast_eq take_bit_eq_mod mod_simps
        mod_mod_cancel)
  also have "(ucast (scast acc :: 64 word) :: 32 word) = acc"
    by (rule bit_word_eqI) (simp add: bit_simps)
  also have "(ucast (word_of_nat c :: 64 word) :: 32 word) = word_of_nat c"
    by (rule bit_word_eqI) (auto simp add: bit_simps)
  finally show ?thesis .
qed

lemma unat_ucast_size_t:
  fixes i :: "64 word"
  assumes "unat i < 2 ^ 32"
  shows "unat (ucast i :: 32 word) = unat i"
  using assms by (simp add: unsigned_ucast_eq take_bit_nat_eq_self)

lemma sve_loads:
  assumes "i \<le> n" and "n \<le> length p"
  shows "svld1_u8 (map (\<lambda>k. i + k < n) [0..<vl]) (drop i p) =
           Some (map (\<lambda>k. if i + k < n then p ! (i + k) else 0) [0..<vl])"
proof -
  have "svld1_u8 (map (\<lambda>k. i + k < n) [0..<vl]) (drop i p) =
      Some (map (\<lambda>k. if i + k < n then drop i p ! k else 0) [0..<vl])"
    using assms by (intro svld1_u8_window) simp
  moreover have "(if i + k < n then drop i p ! k else 0) = (if i + k < n then p ! (i + k) else 0)" for k
    using assms by simp
  ultimately show ?thesis
    by simp
qed

lemma sve_b8_hamming_loop_sum:
  assumes "unat i \<le> unat n" and "unat n \<le> length a" and "unat n \<le> length b"
    and "unat n < 2 ^ 32" and "0 < vl" and "vl \<le> 256"
  shows "sve_b8_hamming_loop vl a b n i acc =
           Some (acc + word_of_nat (bits_between (XOR) a b (unat i) (unat n)))"
  using assms
proof (induction "unat n - unat i" arbitrary: i acc rule: less_induct)
  case less
  have step: "unat (i + word_of_nat vl) = unat i + vl"
    using less.prems by (intro unat_size_t_add) simp
  have pg: "svwhilelt_b8 vl (ucast i) (ucast n) = map (\<lambda>k. unat i + k < unat n) [0..<vl]"
    using less.prems by (simp add: svwhilelt_b8_def whilelo_eq unat_ucast_size_t)
  have count: "svaddv_u8 (svptrue_b8 vl) (svcnt_u8_x (svptrue_b8 vl) (sveor_u8_m (svptrue_b8 vl)
        (map (\<lambda>k. if unat i + k < unat n then a ! (unat i + k) else 0) [0..<vl])
        (map (\<lambda>k. if unat i + k < unat n then b ! (unat i + k) else 0) [0..<vl]))) =
      word_of_nat (bits_between (XOR) a b (unat i) (min (unat i + vl) (unat n)))"
    unfolding sveor_u8_m_def using less.prems by (intro sve_body_count) simp_all
  show ?case
  proof (cases "i + word_of_nat vl < n")
    case True
    then have lt: "unat i + vl < unat n"
      by (simp add: word_less_nat_alt step)
    let ?acc = "acc + word_of_nat (bits_between (XOR) a b (unat i) (unat i + vl))"
    have dec: "unat n - unat (i + word_of_nat vl) < unat n - unat i"
      using lt less.prems by (simp add: step)
    have "sve_b8_hamming_loop vl a b n (i + word_of_nat vl) ?acc =
        Some (?acc + word_of_nat (bits_between (XOR) a b (unat (i + word_of_nat vl)) (unat n)))"
      by (rule less.hyps [OF dec]) (use less.prems lt in \<open>simp_all add: step\<close>)
    moreover have "sve_b8_hamming_loop vl a b n i acc =
        sve_b8_hamming_loop vl a b n (i + word_of_nat vl) ?acc"
      using True lt less.prems
      by (subst sve_b8_hamming_loop.simps)
        (simp add: pg sve_loads count ucast_scast_add min_def)
    moreover have "bits_between (XOR) a b (unat i) (unat n) =
        bits_between (XOR) a b (unat i) (unat i + vl) + bits_between (XOR) a b (unat i + vl) (unat n)"
      using lt by (intro bits_between_split) simp_all
    ultimately show ?thesis
      by (simp add: step add.assoc)
  next
    case False
    then have ge: "unat n \<le> unat i + vl"
      by (simp add: word_less_nat_alt step)
    show ?thesis
      using False ge less.prems
      by (subst sve_b8_hamming_loop.simps)
        (simp add: pg sve_loads count ucast_scast_add min_def)
  qed
qed

lemma sve_b8_jaccard_loop_sum:
  assumes "unat i \<le> unat n" and "unat n \<le> length a" and "unat n \<le> length b"
    and "unat n < 2 ^ 32" and "0 < vl" and "vl \<le> 256"
  shows "sve_b8_jaccard_loop vl a b n i acc1 acc2 =
           Some (acc1 + word_of_nat (bits_between (AND) a b (unat i) (unat n)),
                 acc2 + word_of_nat (bits_between (OR) a b (unat i) (unat n)))"
  using assms
proof (induction "unat n - unat i" arbitrary: i acc1 acc2 rule: less_induct)
  case less
  have step: "unat (i + word_of_nat vl) = unat i + vl"
    using less.prems by (intro unat_size_t_add) simp
  have pg: "svwhilelt_b8 vl (ucast i) (ucast n) = map (\<lambda>k. unat i + k < unat n) [0..<vl]"
    using less.prems by (simp add: svwhilelt_b8_def whilelo_eq unat_ucast_size_t)
  have count1: "svaddv_u8 (svptrue_b8 vl) (svcnt_u8_x (svptrue_b8 vl) (svand_u8_m (svptrue_b8 vl)
        (map (\<lambda>k. if unat i + k < unat n then a ! (unat i + k) else 0) [0..<vl])
        (map (\<lambda>k. if unat i + k < unat n then b ! (unat i + k) else 0) [0..<vl]))) =
      word_of_nat (bits_between (AND) a b (unat i) (min (unat i + vl) (unat n)))"
    unfolding svand_u8_m_def using less.prems by (intro sve_body_count) simp_all
  have count2: "svaddv_u8 (svptrue_b8 vl) (svcnt_u8_x (svptrue_b8 vl) (svorr_u8_m (svptrue_b8 vl)
        (map (\<lambda>k. if unat i + k < unat n then a ! (unat i + k) else 0) [0..<vl])
        (map (\<lambda>k. if unat i + k < unat n then b ! (unat i + k) else 0) [0..<vl]))) =
      word_of_nat (bits_between (OR) a b (unat i) (min (unat i + vl) (unat n)))"
    unfolding svorr_u8_m_def using less.prems by (intro sve_body_count) simp_all
  show ?case
  proof (cases "i + word_of_nat vl < n")
    case True
    then have lt: "unat i + vl < unat n"
      by (simp add: word_less_nat_alt step)
    let ?acc1 = "acc1 + word_of_nat (bits_between (AND) a b (unat i) (unat i + vl))"
    let ?acc2 = "acc2 + word_of_nat (bits_between (OR) a b (unat i) (unat i + vl))"
    have dec: "unat n - unat (i + word_of_nat vl) < unat n - unat i"
      using lt less.prems by (simp add: step)
    have "sve_b8_jaccard_loop vl a b n (i + word_of_nat vl) ?acc1 ?acc2 =
        Some (?acc1 + word_of_nat (bits_between (AND) a b (unat (i + word_of_nat vl)) (unat n)),
              ?acc2 + word_of_nat (bits_between (OR) a b (unat (i + word_of_nat vl)) (unat n)))"
      by (rule less.hyps [OF dec]) (use less.prems lt in \<open>simp_all add: step\<close>)
    moreover have "sve_b8_jaccard_loop vl a b n i acc1 acc2 =
        sve_b8_jaccard_loop vl a b n (i + word_of_nat vl) ?acc1 ?acc2"
      using True lt less.prems
      by (subst sve_b8_jaccard_loop.simps)
        (simp add: pg sve_loads count1 count2 ucast_scast_add min_def)
    moreover have "bits_between f a b (unat i) (unat n) =
        bits_between f a b (unat i) (unat i + vl) + bits_between f a b (unat i + vl) (unat n)" for f
      using lt by (intro bits_between_split) simp_all
    ultimately show ?thesis
      by (simp add: step add.assoc)
  next
    case False
    then have ge: "unat n \<le> unat i + vl"
      by (simp add: word_less_nat_alt step)
    show ?thesis
      using False ge less.prems
      by (subst sve_b8_jaccard_loop.simps)
        (simp add: pg sve_loads count1 count2 ucast_scast_add min_def)
  qed
qed

lemma simsimd_sve_b8_hamming_value:
  assumes "unat n \<le> length a" and "unat n \<le> length b"
    and "unat n < 2 ^ 32" and "0 < vl" and "vl \<le> 256"
  shows "simsimd_sve_b8_hamming vl F a b n =
           Some (f32_of_int F (sint (word_of_nat (bits_between (XOR) a b 0 (unat n)) :: 32 word)))"
  using assms by (simp add: simsimd_sve_b8_hamming_def sve_b8_hamming_loop_sum)

lemma simsimd_sve_b8_jaccard_value:
  assumes "unat n \<le> length a" and "unat n \<le> length b"
    and "unat n < 2 ^ 32" and "0 < vl" and "vl \<le> 256"
  shows "simsimd_sve_b8_jaccard vl F a b n =
           Some (jaccard_return F
             (sint (word_of_nat (bits_between (AND) a b 0 (unat n)) :: 32 word))
             (sint (word_of_nat (bits_between (OR) a b 0 (unat n)) :: 32 word)))"
  using assms by (simp add: simsimd_sve_b8_jaccard_def sve_b8_jaccard_loop_sum)

section \<open>The AVX-512 kernels in closed form\<close>

lemma pack_word_of_int:
  "(pack ls :: 'a::len word) = word_of_int (horner_sum uint (2 ^ LENGTH('b)) ls)"
  for ls :: "'b::len word list"
  by (induction ls) (simp_all add: pack_def)

lemma bit_pack_iff:
  "bit (pack ls :: 'a::len word) n \<longleftrightarrow>
     n < LENGTH('a) \<and> n div LENGTH('b) < length ls \<and> bit (ls ! (n div LENGTH('b))) (n mod LENGTH('b))"
  for ls :: "'b::len word list"
  by (simp add: pack_word_of_int bit_word_of_int_iff bit_horner_sum_uint_exp_iff)

lemma length_lanes [simp]: "length (lanes n v) = n"
  by (simp add: lanes_def)

lemma bit_lanes_iff:
  "k < n \<Longrightarrow> bit (lanes n v ! k :: 'b::len word) j \<longleftrightarrow> j < LENGTH('b) \<and> bit v (k * LENGTH('b) + j)"
  by (auto simp add: lanes_def bit_simps dest: bit_imp_le_length)

lemma lanes_pack:
  fixes ls :: "'b::len word list"
  assumes "length ls = n" and "n * LENGTH('b) \<le> LENGTH('a)"
  shows "lanes n (pack ls :: 'a::len word) = ls"
proof (rule nth_equalityI)
  show "length (lanes n (pack ls :: 'a word) :: 'b word list) = length ls"
    using assms by simp
next
  fix k
  assume "k < length (lanes n (pack ls :: 'a word) :: 'b word list)"
  then have k: "k < n"
    by simp
  show "lanes n (pack ls :: 'a word) ! k = ls ! k"
  proof (rule bit_word_eqI)
    fix j
    assume j: "j < LENGTH('b)"
    have "k * LENGTH('b) + j < Suc k * LENGTH('b)"
      using j by simp
    also have "\<dots> \<le> n * LENGTH('b)"
      using k by (intro mult_le_mono1) simp
    finally have "k * LENGTH('b) + j < LENGTH('a)"
      using assms(2) by simp
    moreover have "(k * LENGTH('b) + j) div LENGTH('b) = k" "(k * LENGTH('b) + j) mod LENGTH('b) = j"
      using j by simp_all
    ultimately show "bit (lanes n (pack ls :: 'a word) ! k :: 'b word) j = bit (ls ! k) j"
      using k j assms(1) by (simp add: bit_lanes_iff bit_pack_iff)
  qed
qed

lemma pack_bitwise:
  fixes xs ys :: "'b::len word list"
  assumes "length xs = length ys"
  shows "pack (map2 (XOR) xs ys) = (pack xs XOR pack ys :: 'a::len word)"
    and "pack (map2 (AND) xs ys) = (pack xs AND pack ys :: 'a::len word)"
    and "pack (map2 (OR) xs ys) = (pack xs OR pack ys :: 'a::len word)"
  using assms by (auto intro!: bit_word_eqI simp add: bit_pack_iff bit_simps)

lemma set_bits_sum: "set_bits (w :: 'a::len word) = (\<Sum>n<LENGTH('a). of_bool (bit w n))"
proof -
  have "length (filter P [0..<m]) = (\<Sum>n<m. of_bool (P n))" for P :: "nat \<Rightarrow> bool" and m
    by (induction m) simp_all
  then show ?thesis
    by (simp add: set_bits_def)
qed

lemma sum_blocks:
  fixes g :: "nat \<Rightarrow> nat"
  shows "(\<Sum>j<m. \<Sum>k<w. g (j * w + k)) = (\<Sum>n<m * w. g n)"
proof -
  have "(\<Sum>k<w. g (j * w + k)) = sum g {j * w..<j * w + w}" for j
    using sum.shift_bounds_nat_ivl [of g 0 "j * w" w]
    by (simp add: add.commute lessThan_atLeast0)
  then show ?thesis
    by (simp add: sum.nat_group)
qed

lemma set_bits_lanes:
  fixes v :: "'a::len word"
  assumes "n * LENGTH('b::len) = LENGTH('a)"
  shows "sum_list (map set_bits (lanes n v :: 'b word list)) = set_bits v"
proof -
  have "sum_list (map set_bits (lanes n v :: 'b word list)) =
      (\<Sum>j<n. set_bits (lanes n v ! j :: 'b word))"
    unfolding sum_list_sum_nth lessThan_atLeast0 by (rule sum.cong) simp_all
  also have "\<dots> = (\<Sum>j<n. \<Sum>k<LENGTH('b). of_bool (bit v (j * LENGTH('b) + k)))"
    by (intro sum.cong) (simp_all add: set_bits_sum bit_lanes_iff)
  also have "\<dots> = (\<Sum>x<n * LENGTH('b). of_bool (bit v x))"
    by (rule sum_blocks)
  finally show ?thesis
    using assms by (simp add: set_bits_sum)
qed

lemma set_bits_pack:
  fixes ls :: "'b::len word list"
  assumes "length ls * LENGTH('b) = LENGTH('a::len)"
  shows "set_bits (pack ls :: 'a word) = sum_list (map set_bits ls)"
proof -
  have "set_bits (pack ls :: 'a word) = sum_list (map set_bits (lanes (length ls) (pack ls :: 'a word) :: 'b word list))"
    using assms by (simp only: set_bits_lanes)
  also have "lanes (length ls) (pack ls :: 'a word) = ls"
    using assms by (intro lanes_pack) simp_all
  finally show ?thesis .
qed

lemma lanes_zero [simp]: "lanes n 0 = replicate n 0"
  by (simp add: lanes_def map_replicate_const)

lemma pack_zero [simp]: "pack (replicate n 0) = 0"
  by (induction n) (simp_all add: pack_def)

lemma sum_list_map2_add:
  fixes xs ys :: "'a::comm_monoid_add list"
  assumes "length xs = length ys"
  shows "sum_list (map2 (+) xs ys) = sum_list xs + sum_list ys"
  using assms by (induction xs ys rule: list_induct2) (simp_all add: ac_simps)

lemma sum_list_replicate_zero [simp]: "sum_list (replicate n (0 :: 'a::comm_monoid_add)) = 0"
  by (induction n) simp_all

lemma reduce_add_zero [simp]: "mm512_reduce_add_epi64 0 = 0"
  by (simp add: mm512_reduce_add_epi64_def)

lemma reduce_add_add:
  "mm512_reduce_add_epi64 (mm512_add_epi64 x y) = mm512_reduce_add_epi64 x + mm512_reduce_add_epi64 y"
proof -
  have "lanes 8 (pack (map2 (+) (lanes 8 x :: 64 word list) (lanes 8 y)) :: 512 word) =
      map2 (+) (lanes 8 x :: 64 word list) (lanes 8 y)"
    by (intro lanes_pack) simp_all
  then show ?thesis
    by (simp add: mm512_reduce_add_epi64_def mm512_add_epi64_def sum_list_map2_add)
qed

lemma reduce_add_popcnt:
  "mm512_reduce_add_epi64 (mm512_popcnt_epi64 v) = word_of_nat (set_bits v)"
proof -
  have "lanes 8 (pack (map (\<lambda>l :: 64 word. word_of_nat (set_bits l) :: 64 word) (lanes 8 v)) :: 512 word) =
      map (\<lambda>l :: 64 word. word_of_nat (set_bits l) :: 64 word) (lanes 8 v)"
    by (intro lanes_pack) simp_all
  moreover have "sum_list (map set_bits (lanes 8 v :: 64 word list)) = set_bits v"
    by (intro set_bits_lanes) simp
  ultimately show ?thesis
    by (simp add: mm512_reduce_add_epi64_def mm512_popcnt_epi64_def sum_list_word_of_nat)
qed

lemma set_bits_pack_bytes:
  fixes f :: "8 word \<Rightarrow> 8 word \<Rightarrow> 8 word"
  assumes "length xs = 64" and "length ys = 64"
  shows "set_bits (pack (map2 f xs ys) :: 512 word) = sum_list (map set_bits (map2 f xs ys))"
  using assms by (intro set_bits_pack) simp

lemma avx512_full_block:
  assumes "64 \<le> length a" and "64 \<le> length b"
  shows "set_bits (pack (take 64 a) XOR pack (take 64 b) :: 512 word) = bits_between (XOR) a b 0 64"
    and "set_bits (pack (take 64 a) AND pack (take 64 b) :: 512 word) = bits_between (AND) a b 0 64"
    and "set_bits (pack (take 64 a) OR pack (take 64 b) :: 512 word) = bits_between (OR) a b 0 64"
  using assms bits_between_window [of 0 64 a b]
  by (simp_all flip: pack_bitwise add: set_bits_pack_bytes)

lemma bit_bzhi_mask:
  fixes n :: "64 word"
  assumes "n < 64"
  shows "bit (bzhi_u64 (- 1) (ucast n)) j \<longleftrightarrow> j < unat n"
proof -
  have n: "unat n < 64"
    using assms by (simp add: word_less_nat_alt)
  then have "unat (ucast n :: 32 word) = unat n"
    by (simp add: unsigned_ucast_eq take_bit_nat_eq_self)
  with n have "unat (ucast (ucast n :: 32 word) :: 8 word) = unat n"
    using unsigned_ucast_eq [of "ucast n :: 32 word", where ?'c = 8 and ?'a = nat]
    by (simp add: take_bit_nat_eq_self)
  then show ?thesis
    using n by (auto simp add: bzhi_u64_def bit_simps)
qed

lemma mm512_maskz_loadu_epi8_tail:
  fixes n :: "64 word"
  assumes "n < 64" and "unat n \<le> length p"
  shows "mm512_maskz_loadu_epi8 (bzhi_u64 (- 1) (ucast n)) p =
           Some (pack (map (\<lambda>j. if j < unat n then p ! j else 0) [0..<64]))"
proof -
  have "those (map (\<lambda>j. if bit (bzhi_u64 (- 1) (ucast n)) j then rd p j else Some 0) [0..<64]) =
      Some (map (\<lambda>j. if j < unat n then p ! j else 0) [0..<64])"
    using assms by (intro those_map_Some) (simp add: bit_bzhi_mask rd_def)
  then show ?thesis
    by (simp add: mm512_maskz_loadu_epi8_def)
qed

lemma sum_list_masked:
  fixes f :: "8 word \<Rightarrow> 8 word \<Rightarrow> 8 word"
  assumes "f 0 0 = 0" and "n \<le> 64"
  shows "sum_list (map set_bits (map2 f (map (\<lambda>j. if j < n then a ! j else 0) [0..<64])
                                         (map (\<lambda>j. if j < n then b ! j else 0) [0..<64]))) =
           bits_between f a b 0 n"
proof -
  have "map2 f (map (\<lambda>j. if j < n then a ! j else 0) [0..<64])
               (map (\<lambda>j. if j < n then b ! j else 0) [0..<64]) =
      map (\<lambda>j. f (if j < n then a ! j else 0) (if j < n then b ! j else 0)) [0..<64]"
    by (simp add: zip_map_map zip_same_conv_map comp_def)
  then have "sum_list (map set_bits (map2 f (map (\<lambda>j. if j < n then a ! j else 0) [0..<64])
                                         (map (\<lambda>j. if j < n then b ! j else 0) [0..<64]))) =
      (\<Sum>k = 0..<64. set_bits (f (if 0 + k < n then a ! (0 + k) else 0)
                                  (if 0 + k < n then b ! (0 + k) else 0)))"
    by (simp add: comp_def interv_sum_list_conv_sum_set_nat cong: if_cong)
  also have "\<dots> = bits_between f a b 0 (min (0 + 64) n)"
    using assms(1) by (rule sve_lane_sum) simp
  finally show ?thesis
    using assms(2) by (simp add: min_def)
qed

lemma avx512_masked_block:
  fixes n :: nat
  assumes "n \<le> 64"
  defines "A \<equiv> \<lambda>p :: 8 word list. map (\<lambda>j. if j < n then p ! j else 0) [0..<64]"
  shows "set_bits (pack (A a) XOR pack (A b) :: 512 word) = bits_between (XOR) a b 0 n"
    and "set_bits (pack (A a) AND pack (A b) :: 512 word) = bits_between (AND) a b 0 n"
    and "set_bits (pack (A a) OR pack (A b) :: 512 word) = bits_between (OR) a b 0 n"
proof -
  have len: "length (A a) = 64" "length (A b) = 64"
    by (simp_all add: A_def)
  have *: "set_bits (pack (map2 f (A a) (A b)) :: 512 word) = bits_between f a b 0 n"
    if "f 0 0 = 0" for f :: "8 word \<Rightarrow> 8 word \<Rightarrow> 8 word"
  proof -
    have "set_bits (pack (map2 f (A a) (A b)) :: 512 word) = sum_list (map set_bits (map2 f (A a) (A b)))"
      using len by (rule set_bits_pack_bytes)
    also have "\<dots> = bits_between f a b 0 n"
      unfolding A_def using that assms(1) by (rule sum_list_masked)
    finally show ?thesis .
  qed
  have eq: "length (A a) = length (A b)"
    using len by simp
  show "set_bits (pack (A a) XOR pack (A b) :: 512 word) = bits_between (XOR) a b 0 n"
    unfolding pack_bitwise(1) [OF eq, symmetric] by (rule *) simp
  show "set_bits (pack (A a) AND pack (A b) :: 512 word) = bits_between (AND) a b 0 n"
    unfolding pack_bitwise(2) [OF eq, symmetric] by (rule *) simp
  show "set_bits (pack (A a) OR pack (A b) :: 512 word) = bits_between (OR) a b 0 n"
    unfolding pack_bitwise(3) [OF eq, symmetric] by (rule *) simp
qed

lemma bits_between_drop:
  assumes "k + m \<le> length a" and "k + m \<le> length b"
  shows "bits_between f (drop k a) (drop k b) 0 m = bits_between f a b k (k + m)"
proof -
  have "bits_between f (drop k a) (drop k b) 0 m = (\<Sum>j = 0..<m. set_bits (f (a ! (j + k)) (b ! (j + k))))"
    unfolding bits_between_def using assms by (intro sum.cong) (simp_all add: add.commute)
  also have "\<dots> = (\<Sum>j = 0 + k..<m + k. set_bits (f (a ! j) (b ! j)))"
    by (simp only: sum.shift_bounds_nat_ivl)
  finally show ?thesis
    by (simp add: bits_between_def add.commute)
qed

lemma avx512_b8_load_tail:
  assumes "n < 64" and "unat n \<le> length a" and "unat n \<le> length b"
  shows "avx512_b8_load a b n =
           Some (pack (map (\<lambda>j. if j < unat n then a ! j else 0) [0..<64]),
                 pack (map (\<lambda>j. if j < unat n then b ! j else 0) [0..<64]), a, b, 0)"
  using assms by (simp add: avx512_b8_load_def mm512_maskz_loadu_epi8_tail)

lemma avx512_b8_load_full:
  assumes "\<not> n < 64" and "unat n \<le> length a" and "unat n \<le> length b"
  shows "avx512_b8_load a b n =
           Some (pack (take 64 a), pack (take 64 b), drop 64 a, drop 64 b, n - 64)"
    and "unat (n - 64) = unat n - 64" and "64 \<le> unat n"
proof -
  show ge: "64 \<le> unat n"
    using assms(1) by (simp add: word_less_nat_alt not_less)
  then show "avx512_b8_load a b n =
           Some (pack (take 64 a), pack (take 64 b), drop 64 a, drop 64 b, n - 64)"
    using assms by (simp add: avx512_b8_load_def mm512_loadu_epi8_def)
  show "unat (n - 64) = unat n - 64"
    using assms(1) by (simp add: unat_sub word_le_nat_alt not_less)
qed

lemma avx512_b8_hamming_cycle_sum:
  assumes "unat n \<le> length a" and "unat n \<le> length b"
  shows "\<exists>v. avx512_b8_hamming_cycle a b n acc = Some v \<and>
           mm512_reduce_add_epi64 v =
             mm512_reduce_add_epi64 acc + word_of_nat (bits_between (XOR) a b 0 (unat n))"
  using assms
proof (induction "unat n" arbitrary: n a b acc rule: less_induct)
  case less
  show ?case
  proof (cases "n < 64")
    case True
    then have "unat n \<le> 64"
      by (simp add: word_less_nat_alt)
    then show ?thesis
      using True less.prems
      by (subst avx512_b8_hamming_cycle.simps)
        (simp add: avx512_b8_load_tail reduce_add_add reduce_add_popcnt avx512_masked_block)
  next
    case False
    note full = avx512_b8_load_full [OF False less.prems]
    let ?acc = "mm512_add_epi64 acc (mm512_popcnt_epi64 (pack (take 64 a) XOR pack (take 64 b)))"
    have acc: "mm512_reduce_add_epi64 ?acc =
        mm512_reduce_add_epi64 acc + word_of_nat (bits_between (XOR) a b 0 64)"
      using full(3) less.prems by (simp add: reduce_add_add reduce_add_popcnt avx512_full_block)
    show ?thesis
    proof (cases "n - 64 = 0")
      case True
      then have "unat n = 64"
        using full(2,3) by (simp add: unat_eq_zero [symmetric])
      then show ?thesis
        using True full(1) acc by (subst avx512_b8_hamming_cycle.simps) simp
    next
      case nz: False
      have "\<exists>v. avx512_b8_hamming_cycle (drop 64 a) (drop 64 b) (n - 64) ?acc = Some v \<and>
          mm512_reduce_add_epi64 v = mm512_reduce_add_epi64 ?acc +
            word_of_nat (bits_between (XOR) (drop 64 a) (drop 64 b) 0 (unat (n - 64)))"
        using full(2,3) less.prems by (intro less.hyps) simp_all
      moreover have "bits_between (XOR) (drop 64 a) (drop 64 b) 0 (unat (n - 64)) =
          bits_between (XOR) a b 64 (unat n)"
        using full(2,3) less.prems bits_between_drop [of 64 "unat n - 64" a b "(XOR)"] by simp
      moreover have "bits_between (XOR) a b 0 (unat n) =
          bits_between (XOR) a b 0 64 + bits_between (XOR) a b 64 (unat n)"
        using full(3) by (intro bits_between_split) simp_all
      ultimately show ?thesis
        using nz full(1) acc by (subst avx512_b8_hamming_cycle.simps) (auto simp add: add.assoc)
    qed
  qed
qed

lemma avx512_b8_jaccard_cycle_sum:
  assumes "unat n \<le> length a" and "unat n \<le> length b"
  shows "\<exists>v w. avx512_b8_jaccard_cycle a b n acc1 acc2 = Some (v, w) \<and>
           mm512_reduce_add_epi64 v =
             mm512_reduce_add_epi64 acc1 + word_of_nat (bits_between (AND) a b 0 (unat n)) \<and>
           mm512_reduce_add_epi64 w =
             mm512_reduce_add_epi64 acc2 + word_of_nat (bits_between (OR) a b 0 (unat n))"
  using assms
proof (induction "unat n" arbitrary: n a b acc1 acc2 rule: less_induct)
  case less
  show ?case
  proof (cases "n < 64")
    case True
    then have "unat n \<le> 64"
      by (simp add: word_less_nat_alt)
    then show ?thesis
      using True less.prems
      by (subst avx512_b8_jaccard_cycle.simps)
        (simp add: avx512_b8_load_tail reduce_add_add reduce_add_popcnt avx512_masked_block)
  next
    case False
    note full = avx512_b8_load_full [OF False less.prems]
    let ?acc1 = "mm512_add_epi64 acc1 (mm512_popcnt_epi64 (pack (take 64 a) AND pack (take 64 b)))"
    let ?acc2 = "mm512_add_epi64 acc2 (mm512_popcnt_epi64 (pack (take 64 a) OR pack (take 64 b)))"
    have acc: "mm512_reduce_add_epi64 ?acc1 =
        mm512_reduce_add_epi64 acc1 + word_of_nat (bits_between (AND) a b 0 64)"
      "mm512_reduce_add_epi64 ?acc2 =
        mm512_reduce_add_epi64 acc2 + word_of_nat (bits_between (OR) a b 0 64)"
      using full(3) less.prems
      by (simp_all add: reduce_add_add reduce_add_popcnt avx512_full_block)
    show ?thesis
    proof (cases "n - 64 = 0")
      case True
      then have "unat n = 64"
        using full(2,3) by (simp add: unat_eq_zero [symmetric])
      then show ?thesis
        using True full(1) acc by (subst avx512_b8_jaccard_cycle.simps) simp
    next
      case nz: False
      have "\<exists>v w. avx512_b8_jaccard_cycle (drop 64 a) (drop 64 b) (n - 64) ?acc1 ?acc2 = Some (v, w) \<and>
          mm512_reduce_add_epi64 v = mm512_reduce_add_epi64 ?acc1 +
            word_of_nat (bits_between (AND) (drop 64 a) (drop 64 b) 0 (unat (n - 64))) \<and>
          mm512_reduce_add_epi64 w = mm512_reduce_add_epi64 ?acc2 +
            word_of_nat (bits_between (OR) (drop 64 a) (drop 64 b) 0 (unat (n - 64)))"
        using full(2,3) less.prems by (intro less.hyps) simp_all
      moreover have "bits_between f (drop 64 a) (drop 64 b) 0 (unat (n - 64)) =
          bits_between f a b 64 (unat n)" for f
        using full(2,3) less.prems bits_between_drop [of 64 "unat n - 64" a b f] by simp
      moreover have "bits_between f a b 0 (unat n) =
          bits_between f a b 0 64 + bits_between f a b 64 (unat n)" for f
        using full(3) by (intro bits_between_split) simp_all
      ultimately show ?thesis
        using nz full(1) acc by (subst avx512_b8_jaccard_cycle.simps) (auto simp add: add.assoc)
    qed
  qed
qed

lemma simsimd_avx512_b8_hamming_value:
  assumes "unat n \<le> length a" and "unat n \<le> length b"
  shows "simsimd_avx512_b8_hamming F a b n =
           Some (f32_of_int F (uint (word_of_nat (bits_between (XOR) a b 0 (unat n)) :: 64 word)))"
  using avx512_b8_hamming_cycle_sum [OF assms, of 0]
  by (auto simp add: simsimd_avx512_b8_hamming_def)

lemma simsimd_avx512_b8_jaccard_value:
  assumes "unat n \<le> length a" and "unat n \<le> length b"
  shows "simsimd_avx512_b8_jaccard F a b n =
           Some (jaccard_return F
             (uint (word_of_nat (bits_between (AND) a b 0 (unat n)) :: 64 word))
             (uint (word_of_nat (bits_between (OR) a b 0 (unat n)) :: 64 word)))"
  using avx512_b8_jaccard_cycle_sum [OF assms, of 0 0]
  by (auto simp add: simsimd_avx512_b8_jaccard_def)

section \<open>Agreement of the Hamming kernels\<close>

lemma bits_between_replicate:
  "bits_between f (replicate n x) (replicate n y) 0 n = n * set_bits (f x y)"
proof -
  have "bits_between f (replicate n x) (replicate n y) 0 n = (\<Sum>k = 0..<n. set_bits (f x y))"
    unfolding bits_between_def by (intro sum.cong) simp_all
  then show ?thesis
    by simp
qed

lemma sint_count:
  assumes "c < 2 ^ 31"
  shows "sint (word_of_nat c :: 32 word) = int c"
proof -
  have "sint (word_of_int (int c) :: 32 word) = signed_take_bit (LENGTH(32) - 1) (int c)"
    by (rule sint_sbintrunc')
  also have "\<dots> = int c"
    using assms by (intro signed_take_bit_int_eq_self) simp_all
  finally show ?thesis
    by simp
qed

lemma uint_count:
  assumes "c < 2 ^ 31"
  shows "uint (word_of_nat c :: 64 word) = int c"
proof -
  have "c < 2 ^ 64"
    using assms by (rule less_trans) simp
  then show ?thesis
    by (simp add: unsigned_of_nat take_bit_nat_eq_self)
qed

text \<open>
  C1, as the code has it. For two buffers with \<open>n_words\<close> readable bytes each and
  \<open>n_words < 2^28\<close>, the NEON, SVE (for every vector length \<open>vl\<close> from 1 to 256 bytes) and
  AVX-512 Hamming kernels return exactly what the serial kernel returns, and that is the
  number of differing bits converted to float. Below \<open>2^28\<close> words the count is below
  \<open>2^31\<close> and fits the signed 32-bit counter of the serial, NEON and SVE kernels.
\<close>

theorem b8_hamming_kernels_agree:
  assumes "unat n \<le> length a" and "unat n \<le> length b" and "unat n < 2 ^ 28"
    and "0 < vl" and "vl \<le> 256"
  shows "simsimd_neon_b8_hamming F a b n = simsimd_serial_b8_hamming F a b n \<and>
         simsimd_sve_b8_hamming vl F a b n = simsimd_serial_b8_hamming F a b n \<and>
         simsimd_avx512_b8_hamming F a b n = simsimd_serial_b8_hamming F a b n \<and>
         simsimd_serial_b8_hamming F a b n =
           Some (f32_of_int F (int (bits_between (XOR) a b 0 (unat n))))"
proof -
  have "bits_between (XOR) a b 0 (unat n) < 2 ^ 31"
    using bits_between_le [of "(XOR)" a b 0 "unat n"] assms(3) by simp
  then have "sint (word_of_nat (bits_between (XOR) a b 0 (unat n)) :: 32 word) =
        int (bits_between (XOR) a b 0 (unat n))"
    and "uint (word_of_nat (bits_between (XOR) a b 0 (unat n)) :: 64 word) =
        int (bits_between (XOR) a b 0 (unat n))"
    by (simp_all only: sint_count uint_count)
  moreover have "unat n < 2 ^ 64 - 16" "unat n < 2 ^ 32"
    using assms(3) by simp_all
  ultimately show ?thesis
    using assms
    by (simp add: simsimd_serial_b8_hamming_value simsimd_neon_b8_hamming_value
        simsimd_sve_b8_hamming_value simsimd_avx512_b8_hamming_value)
qed

theorem b8_hamming_kernels_agree_witness:
  "unat (3 :: 64 word) \<le> length [255, 15, 1 :: 8 word] \<and>
   unat (3 :: 64 word) \<le> length [0, 240, 3 :: 8 word] \<and>
   unat (3 :: 64 word) < 2 ^ 28 \<and> (0 :: nat) < 16 \<and> (16 :: nat) \<le> 256 \<and>
   simsimd_neon_b8_hamming exact_arith [255, 15, 1] [0, 240, 3] 3 = Some 17 \<and>
   simsimd_sve_b8_hamming 16 exact_arith [255, 15, 1] [0, 240, 3] 3 = Some 17 \<and>
   simsimd_avx512_b8_hamming exact_arith [255, 15, 1] [0, 240, 3] 3 = Some 17 \<and>
   simsimd_serial_b8_hamming exact_arith [255, 15, 1] [0, 240, 3] 3 = Some 17"
proof -
  have "bits_between (XOR) [255, 15, 1] [0, 240, 3] 0 3 = 17"
    by code_simp
  then show ?thesis
    using b8_hamming_kernels_agree [of 3 "[255, 15, 1]" "[0, 240, 3]" 16 exact_arith]
    by (simp add: exact_arith_def)
qed

text \<open>
  C1 as stated, for every word count, fails at \<open>n_words = 2^28\<close> with all bits differing:
  the count is \<open>2^31\<close>, which wraps to \<open>-2^31\<close> in the serial kernel's \<^verbatim>\<open>simsimd_i32_t\<close>
  counter, while the AVX-512 kernel adds 64-bit lanes and converts a \<^verbatim>\<open>simsimd_size_t\<close>.
\<close>

theorem b8_hamming_avx512_differs_from_serial:
  "simsimd_serial_b8_hamming exact_arith
     (replicate 268435456 255) (replicate 268435456 0) 268435456 = Some (- 2147483648) \<and>
   simsimd_avx512_b8_hamming exact_arith
     (replicate 268435456 255) (replicate 268435456 0) 268435456 = Some 2147483648"
proof -
  have len: "unat (268435456 :: 64 word) \<le> length (replicate 268435456 (255 :: 8 word))"
    "unat (268435456 :: 64 word) \<le> length (replicate 268435456 (0 :: 8 word))"
    by simp_all
  have "set_bits (255 XOR 0 :: 8 word) = 8"
    by code_simp
  then have count: "bits_between (XOR) (replicate 268435456 255) (replicate 268435456 0) 0
      (unat (268435456 :: 64 word)) = 2147483648"
    using bits_between_replicate [of "(XOR)" 268435456 255 0] by simp
  show ?thesis
    unfolding simsimd_serial_b8_hamming_value [OF len] simsimd_avx512_b8_hamming_value [OF len] count
    by (simp add: exact_arith_def)
qed

section \<open>The Jaccard kernels\<close>

lemma jaccard_counts_small:
  assumes "unat (n :: 64 word) < 2 ^ 28"
  shows "sint (word_of_nat (bits_between f a b 0 (unat n)) :: 32 word) = int (bits_between f a b 0 (unat n))"
    and "uint (word_of_nat (bits_between f a b 0 (unat n)) :: 64 word) = int (bits_between f a b 0 (unat n))"
proof -
  have "bits_between f a b 0 (unat n) < 2 ^ 31"
    using bits_between_le [of f a b 0 "unat n"] assms by simp
  then show "sint (word_of_nat (bits_between f a b 0 (unat n)) :: 32 word) = int (bits_between f a b 0 (unat n))"
    and "uint (word_of_nat (bits_between f a b 0 (unat n)) :: 64 word) = int (bits_between f a b 0 (unat n))"
    by (simp_all only: sint_count uint_count)
qed

text \<open>
  C4, as the code has it. For two buffers with \<open>n_words\<close> readable bytes each and
  \<open>n_words < 2^28\<close>, the serial Jaccard kernel returns \<open>1 - intersection / union\<close> when the
  union is not zero and the float 0 when it is, where intersection and union are the
  numbers of set bits of the bytewise AND and OR; in particular it returns 0 when all the
  bytes of both buffers are zero.
\<close>

theorem simsimd_serial_b8_jaccard_returns:
  assumes "unat n \<le> length a" and "unat n \<le> length b" and "unat n < 2 ^ 28"
  shows "simsimd_serial_b8_jaccard F a b n =
           Some (if bits_between (OR) a b 0 (unat n) \<noteq> 0
                 then f32_sub F (f32_of_int F 1)
                        (f32_div F (f32_of_int F (int (bits_between (AND) a b 0 (unat n))))
                                   (f32_of_int F (int (bits_between (OR) a b 0 (unat n)))))
                 else f32_of_int F 0) \<and>
         ((\<forall>k < unat n. a ! k = 0 \<and> b ! k = 0) \<longrightarrow>
            simsimd_serial_b8_jaccard F a b n = Some (f32_of_int F 0))"
proof -
  have val: "simsimd_serial_b8_jaccard F a b n =
      Some (jaccard_return F (int (bits_between (AND) a b 0 (unat n)))
                             (int (bits_between (OR) a b 0 (unat n))))"
    using assms by (simp add: simsimd_serial_b8_jaccard_value jaccard_counts_small)
  have "bits_between (OR) a b 0 (unat n) = 0" if "\<forall>k < unat n. a ! k = 0 \<and> b ! k = 0"
    using that by (simp add: bits_between_def)
  then show ?thesis
    by (auto simp add: val jaccard_return_def)
qed

theorem simsimd_serial_b8_jaccard_returns_witness:
  "unat (3 :: 64 word) \<le> length [255, 15, 1 :: 8 word] \<and>
   unat (3 :: 64 word) \<le> length [0, 240, 3 :: 8 word] \<and> unat (3 :: 64 word) < 2 ^ 28 \<and>
   simsimd_serial_b8_jaccard exact_arith [255, 15, 1] [0, 240, 3] 3 = Some (17 / 18) \<and>
   unat (2 :: 64 word) \<le> length [0, 0 :: 8 word] \<and>
   list_all (\<lambda>k. [0, 0 :: 8 word] ! k = 0) [0..<unat (2 :: 64 word)] \<and>
   simsimd_serial_b8_jaccard exact_arith [0, 0] [0, 0] 2 = Some 0"
proof -
  have "bits_between (AND) [255, 15, 1] [0, 240, 3] 0 3 = 1"
    and "bits_between (OR) [255, 15, 1] [0, 240, 3] 0 3 = 18"
    by code_simp+
  then have nonzero: "simsimd_serial_b8_jaccard exact_arith [255, 15, 1] [0, 240, 3] 3 = Some (17 / 18)"
    using simsimd_serial_b8_jaccard_returns [of 3 "[255, 15, 1]" "[0, 240, 3]" exact_arith]
    by (simp add: exact_arith_def)
  have "\<forall>k < unat (2 :: 64 word). [0, 0 :: 8 word] ! k = 0 \<and> [0, 0 :: 8 word] ! k = 0"
    by (auto simp add: nth_Cons')
  then have zero: "simsimd_serial_b8_jaccard exact_arith [0, 0] [0, 0] 2 = Some 0"
    using simsimd_serial_b8_jaccard_returns [of 2 "[0, 0]" "[0, 0]" exact_arith, THEN conjunct2]
    by (simp add: exact_arith_def)
  have "list_all (\<lambda>k. [0, 0 :: 8 word] ! k = 0) [0..<unat (2 :: 64 word)]"
    by code_simp
  with nonzero zero show ?thesis
    by simp
qed

text \<open>
  C4 as stated, for every word count, fails at \<open>n_words = 2^29\<close> with \<open>a\<close> all ones and \<open>b\<close>
  all zeros: the union has \<open>2^32\<close> bits, which is 0 in the 32-bit counter, so the kernel
  takes the \<^verbatim>\<open>union_ == 0\<close> branch and returns 0 where \<open>1 - 0 / 2^32 = 1\<close> is claimed.
\<close>

theorem simsimd_serial_b8_jaccard_union_wraps:
  "simsimd_serial_b8_jaccard exact_arith
     (replicate 536870912 255) (replicate 536870912 0) 536870912 = Some 0 \<and>
   bits_between (OR) (replicate 536870912 255) (replicate 536870912 0) 0 536870912 = 4294967296 \<and>
   bits_between (AND) (replicate 536870912 255) (replicate 536870912 0) 0 536870912 = 0 \<and>
   jaccard_return exact_arith 0 4294967296 = 1"
proof -
  have len: "unat (536870912 :: 64 word) \<le> length (replicate 536870912 (255 :: 8 word))"
    "unat (536870912 :: 64 word) \<le> length (replicate 536870912 (0 :: 8 word))"
    by simp_all
  have "set_bits (255 OR 0 :: 8 word) = 8" "set_bits (255 AND 0 :: 8 word) = 0"
    by code_simp+
  then have count:
    "bits_between (OR) (replicate 536870912 255) (replicate 536870912 0) 0 536870912 = 4294967296"
    "bits_between (AND) (replicate 536870912 255) (replicate 536870912 0) 0 536870912 = 0"
    using bits_between_replicate [of "(OR)" 536870912 255 0]
      bits_between_replicate [of "(AND)" 536870912 255 0] by simp_all
  have "simsimd_serial_b8_jaccard exact_arith
     (replicate 536870912 255) (replicate 536870912 0) 536870912 = Some 0"
    unfolding simsimd_serial_b8_jaccard_value [OF len]
    using count by (simp add: jaccard_return_def exact_arith_def)
  then show ?thesis
    using count by (simp add: jaccard_return_def exact_arith_def)
qed

text \<open>
  C5, as the code has it. For two buffers with \<open>n_words\<close> readable bytes each and
  \<open>n_words < 2^28\<close>, the NEON kernel (scalar tail loop), the SVE kernel (predicated loads,
  for every vector length \<open>vl\<close> from 1 to 256 bytes) and the AVX-512 kernel (masked load of
  the last chunk) return exactly what the serial Jaccard kernel returns.
\<close>

theorem b8_jaccard_kernels_agree:
  assumes "unat n \<le> length a" and "unat n \<le> length b" and "unat n < 2 ^ 28"
    and "0 < vl" and "vl \<le> 256"
  shows "simsimd_neon_b8_jaccard F a b n = simsimd_serial_b8_jaccard F a b n \<and>
         simsimd_sve_b8_jaccard vl F a b n = simsimd_serial_b8_jaccard F a b n \<and>
         simsimd_avx512_b8_jaccard F a b n = simsimd_serial_b8_jaccard F a b n \<and>
         simsimd_serial_b8_jaccard F a b n =
           Some (jaccard_return F (int (bits_between (AND) a b 0 (unat n)))
                                  (int (bits_between (OR) a b 0 (unat n))))"
proof -
  have "unat n < 2 ^ 64 - 16" "unat n < 2 ^ 32"
    using assms(3) by simp_all
  then show ?thesis
    using assms
    by (simp add: simsimd_serial_b8_jaccard_value simsimd_neon_b8_jaccard_value
        simsimd_sve_b8_jaccard_value simsimd_avx512_b8_jaccard_value jaccard_counts_small)
qed

theorem b8_jaccard_kernels_agree_witness:
  "unat (3 :: 64 word) \<le> length [255, 15, 1 :: 8 word] \<and>
   unat (3 :: 64 word) \<le> length [0, 240, 3 :: 8 word] \<and>
   unat (3 :: 64 word) < 2 ^ 28 \<and> (0 :: nat) < 16 \<and> (16 :: nat) \<le> 256 \<and>
   simsimd_neon_b8_jaccard exact_arith [255, 15, 1] [0, 240, 3] 3 = Some (17 / 18) \<and>
   simsimd_sve_b8_jaccard 16 exact_arith [255, 15, 1] [0, 240, 3] 3 = Some (17 / 18) \<and>
   simsimd_avx512_b8_jaccard exact_arith [255, 15, 1] [0, 240, 3] 3 = Some (17 / 18) \<and>
   simsimd_serial_b8_jaccard exact_arith [255, 15, 1] [0, 240, 3] 3 = Some (17 / 18)"
proof -
  have "bits_between (AND) [255, 15, 1] [0, 240, 3] 0 3 = 1"
    and "bits_between (OR) [255, 15, 1] [0, 240, 3] 0 3 = 18"
    by code_simp+
  then show ?thesis
    using b8_jaccard_kernels_agree [of 3 "[255, 15, 1]" "[0, 240, 3]" 16 exact_arith]
    by (simp add: exact_arith_def jaccard_return_def)
qed

text \<open>
  C5 as stated, for every word count, fails at \<open>n_words = 2^28\<close> with \<open>a\<close> all \<open>0xFF\<close> and
  \<open>b\<close> all \<open>0x0F\<close>: the intersection has \<open>2^30\<close> bits and the union \<open>2^31\<close>, which is
  \<open>-2^31\<close> in the serial kernel's signed 32-bit counter and \<open>2^31\<close> in the AVX-512 kernel's
  unsigned 64-bit one.
\<close>

theorem b8_jaccard_avx512_differs_from_serial:
  "simsimd_serial_b8_jaccard exact_arith
     (replicate 268435456 255) (replicate 268435456 15) 268435456 = Some (3 / 2) \<and>
   simsimd_avx512_b8_jaccard exact_arith
     (replicate 268435456 255) (replicate 268435456 15) 268435456 = Some (1 / 2)"
proof -
  have len: "unat (268435456 :: 64 word) \<le> length (replicate 268435456 (255 :: 8 word))"
    "unat (268435456 :: 64 word) \<le> length (replicate 268435456 (15 :: 8 word))"
    by simp_all
  have "set_bits (255 OR 15 :: 8 word) = 8" "set_bits (255 AND 15 :: 8 word) = 4"
    by code_simp+
  then have count:
    "bits_between (OR) (replicate 268435456 255) (replicate 268435456 15) 0
       (unat (268435456 :: 64 word)) = 2147483648"
    "bits_between (AND) (replicate 268435456 255) (replicate 268435456 15) 0
       (unat (268435456 :: 64 word)) = 1073741824"
    using bits_between_replicate [of "(OR)" 268435456 255 15]
      bits_between_replicate [of "(AND)" 268435456 255 15] by simp_all
  show ?thesis
    unfolding simsimd_serial_b8_jaccard_value [OF len] simsimd_avx512_b8_jaccard_value [OF len] count
    by (simp add: jaccard_return_def exact_arith_def)
qed

section \<open>Length zero\<close>

lemma sve_b8_hamming_loop_zero: "sve_b8_hamming_loop vl a b 0 0 0 = Some 0"
proof -
  have pg: "svwhilelt_b8 vl (ucast (0 :: 64 word)) (ucast (0 :: 64 word)) =
      map (\<lambda>k. (0 :: nat) + k < 0) [0..<vl]"
    by (simp add: svwhilelt_b8_def whilelo_eq)
  have ld: "svld1_u8 (map (\<lambda>k. (0 :: nat) + k < 0) [0..<vl]) (drop 0 p) =
      Some (map (\<lambda>k. if 0 + k < 0 then p ! (0 + k) else 0) [0..<vl])" for p :: "8 word list"
    by (rule sve_loads) simp_all
  have cnt: "svaddv_u8 (svptrue_b8 vl) (svcnt_u8_x (svptrue_b8 vl) (sveor_u8_m (svptrue_b8 vl)
        (map (\<lambda>k. if 0 + k < 0 then a ! (0 + k) else 0) [0..<vl])
        (map (\<lambda>k. if 0 + k < 0 then b ! (0 + k) else 0) [0..<vl]))) =
      word_of_nat (bits_between (XOR) a b 0 (min (0 + vl) 0))"
    unfolding sveor_u8_m_def by (intro sve_body_count) simp_all
  show ?thesis
    by (subst sve_b8_hamming_loop.simps) (use pg ld cnt in \<open>simp add: ucast_scast_add\<close>)
qed

lemma sve_b8_jaccard_loop_zero: "sve_b8_jaccard_loop vl a b 0 0 0 0 = Some (0, 0)"
proof -
  have pg: "svwhilelt_b8 vl (ucast (0 :: 64 word)) (ucast (0 :: 64 word)) =
      map (\<lambda>k. (0 :: nat) + k < 0) [0..<vl]"
    by (simp add: svwhilelt_b8_def whilelo_eq)
  have ld: "svld1_u8 (map (\<lambda>k. (0 :: nat) + k < 0) [0..<vl]) (drop 0 p) =
      Some (map (\<lambda>k. if 0 + k < 0 then p ! (0 + k) else 0) [0..<vl])" for p :: "8 word list"
    by (rule sve_loads) simp_all
  have cnt1: "svaddv_u8 (svptrue_b8 vl) (svcnt_u8_x (svptrue_b8 vl) (svand_u8_m (svptrue_b8 vl)
        (map (\<lambda>k. if 0 + k < 0 then a ! (0 + k) else 0) [0..<vl])
        (map (\<lambda>k. if 0 + k < 0 then b ! (0 + k) else 0) [0..<vl]))) =
      word_of_nat (bits_between (AND) a b 0 (min (0 + vl) 0))"
    unfolding svand_u8_m_def by (intro sve_body_count) simp_all
  have cnt2: "svaddv_u8 (svptrue_b8 vl) (svcnt_u8_x (svptrue_b8 vl) (svorr_u8_m (svptrue_b8 vl)
        (map (\<lambda>k. if 0 + k < 0 then a ! (0 + k) else 0) [0..<vl])
        (map (\<lambda>k. if 0 + k < 0 then b ! (0 + k) else 0) [0..<vl]))) =
      word_of_nat (bits_between (OR) a b 0 (min (0 + vl) 0))"
    unfolding svorr_u8_m_def by (intro sve_body_count) simp_all
  show ?thesis
    by (subst sve_b8_jaccard_loop.simps) (use pg ld cnt1 cnt2 in \<open>simp add: ucast_scast_add\<close>)
qed

lemma avx2_horizontal_sum_zero: "avx2_horizontal_sum 0 = 0"
proof -
  have "mm_add_epi32 0 0 = 0"
    by (simp add: mm_add_epi32_def)
  moreover have "mm_hadd_epi32 0 0 = 0"
    by (simp add: mm_hadd_epi32_def pack_def)
  ultimately show ?thesis
    by (simp add: avx2_horizontal_sum_def mm256_extracti128_si256_def mm_extract_epi32_def)
qed

lemma avx2_i8_l2sq_d2_zero: "avx2_i8_l2sq_d2 a b 0 = Some 0"
  by (simp add: avx2_i8_l2sq_d2_def avx2_i8_l2sq_loop.simps avx2_i8_l2sq_tail.simps
      avx2_horizontal_sum_zero)

text \<open>
  C10. With length 0 every Hamming and Jaccard kernel (serial, NEON, SVE at every vector
  length, AVX-512) and \<^verbatim>\<open>simsimd_avx2_i8_l2sq\<close> return the float 0, whatever the two
  pointers are: the theorem holds for every pair of buffers, the empty ones included, on which
  any read would be the failure \<open>None\<close>. The SVE loop body runs once under an all-false
  predicate and the AVX-512 cycle once under an all-zero mask; neither reads a byte.
\<close>

theorem zero_length_kernels_return_zero:
  "simsimd_serial_b8_hamming F a b 0 = Some (f32_of_int F 0) \<and>
   simsimd_neon_b8_hamming F a b 0 = Some (f32_of_int F 0) \<and>
   simsimd_sve_b8_hamming vl F a b 0 = Some (f32_of_int F 0) \<and>
   simsimd_avx512_b8_hamming F a b 0 = Some (f32_of_int F 0) \<and>
   simsimd_serial_b8_jaccard F a b 0 = Some (f32_of_int F 0) \<and>
   simsimd_neon_b8_jaccard F a b 0 = Some (f32_of_int F 0) \<and>
   simsimd_sve_b8_jaccard vl F a b 0 = Some (f32_of_int F 0) \<and>
   simsimd_avx512_b8_jaccard F a b 0 = Some (f32_of_int F 0) \<and>
   simsimd_avx2_i8_l2sq F a b 0 = Some (f32_of_int F 0)"
  by (simp add: simsimd_serial_b8_hamming_value simsimd_neon_b8_hamming_value
      simsimd_avx512_b8_hamming_value simsimd_serial_b8_jaccard_value
      simsimd_neon_b8_jaccard_value simsimd_avx512_b8_jaccard_value
      simsimd_sve_b8_hamming_def sve_b8_hamming_loop_zero
      simsimd_sve_b8_jaccard_def sve_b8_jaccard_loop_zero
      simsimd_avx2_i8_l2sq_def avx2_i8_l2sq_d2_zero jaccard_return_def)

theorem zero_length_kernels_return_zero_witness:
  "simsimd_serial_b8_hamming exact_arith [] [] 0 = Some 0 \<and>
   simsimd_neon_b8_hamming exact_arith [] [] 0 = Some 0 \<and>
   simsimd_sve_b8_hamming 16 exact_arith [] [] 0 = Some 0 \<and>
   simsimd_avx512_b8_hamming exact_arith [] [] 0 = Some 0 \<and>
   simsimd_serial_b8_jaccard exact_arith [] [] 0 = Some 0 \<and>
   simsimd_neon_b8_jaccard exact_arith [] [] 0 = Some 0 \<and>
   simsimd_sve_b8_jaccard 16 exact_arith [] [] 0 = Some 0 \<and>
   simsimd_avx512_b8_jaccard exact_arith [] [] 0 = Some 0 \<and>
   simsimd_avx2_i8_l2sq exact_arith [] [] 0 = Some 0"
  using zero_length_kernels_return_zero [of exact_arith "[]" "[]" 16]
  by (simp add: exact_arith_def)

section \<open>The signed-byte kernels\<close>

text \<open>
  C3. \<^verbatim>\<open>simsimd_avx2_i8_ip\<close> returns what \<^verbatim>\<open>simsimd_avx2_i8_cos\<close> returns, for every pair of
  buffers and every count (also where a read fails), whatever the inverse square root is.
\<close>

theorem simsimd_avx2_i8_ip_is_cos:
  "simsimd_avx2_i8_ip F rsqrt a b d = simsimd_avx2_i8_cos F rsqrt a b d"
  by (simp add: simsimd_avx2_i8_ip_def)

text \<open>
  What does hold of \<^verbatim>\<open>simsimd_avx2_i8_l2sq\<close>: below one chunk of 32 elements only the scalar
  tail loop runs and the result is the exact sum of the squared differences
  (\<open>simsimd_avx2_i8_l2sq_below_chunk\<close>), and on two equal operands every difference is zero
  and the result is 0 for every count (\<open>simsimd_avx2_i8_l2sq_self\<close>).
\<close>

lemma sum_of_squared_differences_first:
  "i < n \<Longrightarrow> (\<Sum>k = i..<n. (sint (a ! k :: 8 word) - sint (b ! k :: 8 word))\<^sup>2) =
     (sint (a ! i) - sint (b ! i))\<^sup>2 + (\<Sum>k = Suc i..<n. (sint (a ! k) - sint (b ! k))\<^sup>2)"
  by (simp add: sum.atLeast_Suc_lessThan)

lemma avx2_i8_l2sq_tail_sum:
  assumes "unat i \<le> unat d" and "unat d \<le> length a" and "unat d \<le> length b"
  shows "avx2_i8_l2sq_tail a b d i d2 =
           Some (d2 + word_of_int (\<Sum>k = unat i..<unat d. (sint (a ! k) - sint (b ! k))\<^sup>2))"
  using assms
proof (induction "unat d - unat i" arbitrary: i d2)
  case 0
  then have "\<not> i < d"
    by (simp add: word_less_nat_alt)
  then show ?case
    using 0 by (simp add: avx2_i8_l2sq_tail.simps)
next
  case (Suc m)
  then have lt: "unat i < unat d"
    by simp
  then have less: "i < d"
    by (simp add: word_less_nat_alt)
  have succ: "unat (i + 1) = Suc (unat i)"
    using lt by (rule unat_size_t_succ)
  let ?dd = "(scast (a ! unat i) :: 32 word) - scast (b ! unat i)"
  have dd: "?dd * ?dd = word_of_int ((sint (a ! unat i) - sint (b ! unat i))\<^sup>2)"
    by (simp add: power2_eq_square)
  have "avx2_i8_l2sq_tail a b d (i + 1) (d2 + ?dd * ?dd) =
      Some (d2 + ?dd * ?dd +
        word_of_int (\<Sum>k = unat (i + 1)..<unat d. (sint (a ! k) - sint (b ! k))\<^sup>2))"
    using Suc.hyps(2) Suc.prems lt by (intro Suc.hyps(1)) (simp_all add: succ)
  moreover have "rd a (unat i) = Some (a ! unat i)" "rd b (unat i) = Some (b ! unat i)"
    using lt Suc.prems by (simp_all add: rd_Some)
  ultimately show ?case
    using less
    by (subst avx2_i8_l2sq_tail.simps)
      (simp add: succ dd sum_of_squared_differences_first [OF lt] Let_def add.assoc
        del: of_int_power)
qed

lemma sum_of_squared_differences_bound:
  "0 \<le> sum_of_squared_differences a b d \<and> sum_of_squared_differences a b d \<le> 65025 * int d"
proof -
  have "0 \<le> (sint x - sint y)\<^sup>2 \<and> (sint x - sint y)\<^sup>2 \<le> 65025" for x y :: "8 word"
  proof -
    have "- 128 \<le> sint x" "sint x < 128" "- 128 \<le> sint y" "sint y < 128"
      using sint_ge [of x] sint_lt [of x] sint_ge [of y] sint_lt [of y] by simp_all
    then have "\<bar>sint x - sint y\<bar> \<le> 255"
      by simp
    then have "(sint x - sint y)\<^sup>2 \<le> 255\<^sup>2"
      by (metis abs_le_square_iff abs_numeral)
    then show ?thesis
      by simp
  qed
  note sq = this
  have "0 \<le> sum_of_squared_differences a b d"
    unfolding sum_of_squared_differences_def by (intro sum_nonneg) simp
  moreover have "sum_of_squared_differences a b d \<le> (\<Sum>i = 0..<d. 65025)"
    unfolding sum_of_squared_differences_def by (intro sum_mono) (simp add: sq)
  ultimately show ?thesis
    by simp
qed

lemma simsimd_avx2_i8_l2sq_below_chunk:
  assumes "unat d \<le> length a" and "unat d \<le> length b" and "d < 32"
  shows "simsimd_avx2_i8_l2sq F a b d =
           Some (f32_of_int F (sum_of_squared_differences a b (unat d)))"
proof -
  have d: "unat d < 32"
    using assms(3) by (simp add: word_less_nat_alt)
  have "\<not> 0 + 31 < d"
    using d by (simp add: word_less_nat_alt)
  then have "avx2_i8_l2sq_loop a b d 0 0 = Some (0, 0)"
    by (subst avx2_i8_l2sq_loop.simps) simp
  then have d2: "avx2_i8_l2sq_d2 a b d =
      Some (word_of_int (sum_of_squared_differences a b (unat d)))"
    using assms(1,2)
    by (simp add: avx2_i8_l2sq_d2_def avx2_horizontal_sum_zero avx2_i8_l2sq_tail_sum
        sum_of_squared_differences_def)
  define k where "k = unat d"
  have "65025 * int k < 2 ^ 31"
    using d by (simp add: k_def [symmetric])
  then have "sum_of_squared_differences a b k < 2 ^ 31"
    and "- (2 ^ 31) \<le> sum_of_squared_differences a b k"
    using sum_of_squared_differences_bound [of a b k] by linarith+
  then have "sum_of_squared_differences a b (unat d) < 2 ^ 31"
    and "- (2 ^ 31) \<le> sum_of_squared_differences a b (unat d)"
    by (simp_all only: k_def)
  then have "sint (word_of_int (sum_of_squared_differences a b (unat d)) :: 32 word) =
      sum_of_squared_differences a b (unat d)"
    by (simp add: sint_sbintrunc' signed_take_bit_int_eq_self)
  with d2 show ?thesis
    by (simp add: simsimd_avx2_i8_l2sq_def)
qed

lemma map2_minus_self: "map2 (-) xs xs = replicate (length xs) (0 :: 'a::len word)"
  by (induction xs) simp_all

lemma mm256_sub_epi8_self: "mm256_sub_epi8 x x = 0"
  by (simp add: mm256_sub_epi8_def map2_minus_self)

lemma mm256_maddubs_epi16_zero: "mm256_maddubs_epi16 0 0 = 0"
proof -
  have "map (\<lambda>k. saturate_i16 (uint (replicate 32 (0 :: 8 word) ! (2 * k)) *
        sint (replicate 32 (0 :: 8 word) ! (2 * k)) +
        uint (replicate 32 (0 :: 8 word) ! (2 * k + 1)) *
        sint (replicate 32 (0 :: 8 word) ! (2 * k + 1)))) [0..<16] =
      map (\<lambda>k. 0) [0..<16]"
    by (intro map_cong) (simp_all add: saturate_i16_def)
  also have "\<dots> = replicate 16 0"
    by (simp only: map_replicate_const length_upt) simp
  finally show ?thesis
    by (simp add: mm256_maddubs_epi16_def Let_def del: upt_rec_numeral)
qed

lemma mm256_add_epi32_zero: "mm256_add_epi32 0 0 = 0"
  by (simp add: mm256_add_epi32_def)

lemma avx2_i8_l2sq_loop_self:
  assumes "unat i \<le> unat d" and "unat d \<le> length a" and "unat d < 2 ^ 64 - 32"
  shows "\<exists>j. avx2_i8_l2sq_loop a a d i 0 = Some (j, 0) \<and> unat i \<le> unat j \<and> unat j \<le> unat d"
  using assms
proof (induction "unat d - unat i" arbitrary: i rule: less_induct)
  case less
  have s31: "unat (i + 31) = unat i + 31" and s32: "unat (i + 32) = unat i + 32"
    using unat_size_t_add [of i 31] unat_size_t_add [of i 32] less.prems by simp_all
  show ?case
  proof (cases "i + 31 < d")
    case False
    then show ?thesis
      using less.prems by (subst avx2_i8_l2sq_loop.simps) simp
  next
    case True
    then have lt: "unat i + 31 < unat d"
      by (simp add: word_less_nat_alt s31)
    have dec: "unat d - unat (i + 32) < unat d - unat i"
      using lt by (simp add: s32)
    have "\<exists>j. avx2_i8_l2sq_loop a a d (i + 32) 0 = Some (j, 0) \<and>
        unat (i + 32) \<le> unat j \<and> unat j \<le> unat d"
      by (rule less.hyps [OF dec]) (use less.prems lt in \<open>simp_all add: s32\<close>)
    moreover have "32 \<le> length a - unat i"
      using lt less.prems by linarith
    then have "avx2_i8_l2sq_loop a a d i 0 = avx2_i8_l2sq_loop a a d (i + 32) 0"
      using True
      by (subst avx2_i8_l2sq_loop.simps)
        (simp add: mm256_loadu_si256_def mm256_sub_epi8_self mm256_maddubs_epi16_zero
          mm256_add_epi32_zero)
    ultimately show ?thesis
      by (auto simp add: s32)
  qed
qed

lemma simsimd_avx2_i8_l2sq_self:
  assumes "unat d \<le> length a" and "unat d < 2 ^ 64 - 32"
  shows "simsimd_avx2_i8_l2sq F a a d = Some (f32_of_int F 0)"
proof -
  obtain j where j: "avx2_i8_l2sq_loop a a d 0 0 = Some (j, 0)" "unat j \<le> unat d"
    using avx2_i8_l2sq_loop_self [of 0 d a] assms by auto
  then show ?thesis
    using assms(1)
    by (simp add: simsimd_avx2_i8_l2sq_def avx2_i8_l2sq_d2_def avx2_horizontal_sum_zero
        avx2_i8_l2sq_tail_sum)
qed

text \<open>
  C2 fails on the vectorised chunk. \<^verbatim>\<open>_mm256_maddubs_epi16\<close> leaves sixteen 16-bit sums,
  and \<^verbatim>\<open>_mm256_add_epi32\<close> then adds the register as eight 32-bit lanes, so every second
  16-bit sum is counted \<open>2^16\<close> times. For \<open>a = [0, 0, 1, 0, ...]\<close> and \<open>b = 0\<close> of 32 elements
  the kernel returns 65536 where the sum of the squared differences is 1.
\<close>

theorem avx2_i8_l2sq_chunk_is_not_sum_of_squares:
  "simsimd_avx2_i8_l2sq exact_arith ([0, 0, 1] @ replicate 29 0) (replicate 32 0) 32 = Some 65536 \<and>
   sum_of_squared_differences ([0, 0, 1] @ replicate 29 0) (replicate 32 0) 32 = 1"
  by code_simp

text \<open>
  C7 fails on the vectorised chunk. \<^verbatim>\<open>_mm256_maddubs_epi16(d_vec, d_vec)\<close> reads its first
  operand as unsigned bytes and its second as signed ones, so a difference of \<open>-1\<close> gives
  \<open>255 * (-1)\<close>; in the upper half of a 32-bit lane that is a negative number. For \<open>a = 0\<close>
  and \<open>b = [0, 0, 1, 0, ...]\<close> of 32 elements the kernel returns \<open>-16711680\<close>.
\<close>

theorem avx2_i8_l2sq_negative:
  "simsimd_avx2_i8_l2sq exact_arith (replicate 32 0) ([0, 0, 1] @ replicate 29 0) 32 =
     Some (- 16711680) \<and>
   sum_of_squared_differences (replicate 32 0) ([0, 0, 1] @ replicate 29 0) 32 = 1"
  by code_simp

text \<open>
  C6 fails on the vectorised chunk, for the same two reasons. For
  \<open>a = b = [0, 0, 1, 0, ...]\<close> of 32 elements the three sums are 65536 where the three dot
  products are 1; their product \<open>a2 * b2 = 2^32\<close> is 0 in \<^verbatim>\<open>int\<close>, and the kernel returns
  \<open>1 - 65536 * rsqrt(0)\<close> whatever the inverse square root is.
\<close>

theorem avx2_i8_cos_sums_are_not_dot_products:
  "avx2_i8_cos_sums ([0, 0, 1] @ replicate 29 0) ([0, 0, 1] @ replicate 29 0) 32 =
     Some (65536, 65536, 65536) \<and>
   dot_product ([0, 0, 1] @ replicate 29 0) ([0, 0, 1] @ replicate 29 0) 32 = 1 \<and>
   simsimd_avx2_i8_cos exact_arith rsqrt ([0, 0, 1] @ replicate 29 0) ([0, 0, 1] @ replicate 29 0) 32 =
     Some (1 - 65536 * rsqrt 0)"
proof -
  have sums: "avx2_i8_cos_sums ([0, 0, 1] @ replicate 29 0) ([0, 0, 1] @ replicate 29 0) 32 =
      Some (65536, 65536, 65536)"
    by code_simp
  have "dot_product ([0, 0, 1] @ replicate 29 0) ([0, 0, 1] @ replicate 29 0) 32 = 1"
    by code_simp
  with sums show ?thesis
    by (simp add: simsimd_avx2_i8_cos_def exact_arith_def)
qed

end
